theory Spec2Isabelle
  imports Main "HOL-Library.Word"
begin

unbundle bit_operations_syntax

section \<open>Machine types and constants\<close>

type_synonym u64 = "64 word"
type_synonym vaddr_t = u64
type_synonym paddr_t = u64
type_synonym vmr_prop_t = u64

text \<open>
  Modelled from the spec: the headers \<^verbatim>\<open>arch/mm/page_table.h\<close>, \<^verbatim>\<open>arch/mmu.h\<close>,
  \<^verbatim>\<open>common/vars.h\<close> and \<^verbatim>\<open>mm/mm.h\<close> are not among the sources. The constants, index
  macros and descriptor bit-fields below follow the spec (512 entries per table page, 4KB
  pages, 2MB and 1GB blocks, a validity bit and a type bit) and the AArch64 stage-1
  descriptor format for the 4KB granule, which the spec calls hardware defined.
\<close>

definition PAGE_SHIFT :: nat where "PAGE_SHIFT = 12"
definition PAGE_ORDER :: nat where "PAGE_ORDER = 9"
definition PAGE_SIZE :: u64 where "PAGE_SIZE = 4096"
definition PTP_ENTRIES :: nat where "PTP_ENTRIES = 512"
definition PTP_INDEX_MASK :: u64 where "PTP_INDEX_MASK = 511"

definition L0_INDEX_SHIFT :: nat where "L0_INDEX_SHIFT = 3 * PAGE_ORDER + PAGE_SHIFT"
definition L1_INDEX_SHIFT :: nat where "L1_INDEX_SHIFT = 2 * PAGE_ORDER + PAGE_SHIFT"
definition L2_INDEX_SHIFT :: nat where "L2_INDEX_SHIFT = 1 * PAGE_ORDER + PAGE_SHIFT"
definition L3_INDEX_SHIFT :: nat where "L3_INDEX_SHIFT = 0 * PAGE_ORDER + PAGE_SHIFT"

definition GET_L0_INDEX :: "vaddr_t \<Rightarrow> nat" where
  "GET_L0_INDEX va = unat (drop_bit L0_INDEX_SHIFT va AND PTP_INDEX_MASK)"
definition GET_L1_INDEX :: "vaddr_t \<Rightarrow> nat" where
  "GET_L1_INDEX va = unat (drop_bit L1_INDEX_SHIFT va AND PTP_INDEX_MASK)"
definition GET_L2_INDEX :: "vaddr_t \<Rightarrow> nat" where
  "GET_L2_INDEX va = unat (drop_bit L2_INDEX_SHIFT va AND PTP_INDEX_MASK)"
definition GET_L3_INDEX :: "vaddr_t \<Rightarrow> nat" where
  "GET_L3_INDEX va = unat (drop_bit L3_INDEX_SHIFT va AND PTP_INDEX_MASK)"

text \<open>Number of 4KB pages below one entry of each level.\<close>

definition L2_PER_ENTRY_PAGES :: u64 where "L2_PER_ENTRY_PAGES = 512"
definition L1_PER_ENTRY_PAGES :: u64 where "L1_PER_ENTRY_PAGES = 512 * L2_PER_ENTRY_PAGES"
definition L0_PER_ENTRY_PAGES :: u64 where "L0_PER_ENTRY_PAGES = 512 * L1_PER_ENTRY_PAGES"

definition GET_VA_OFFSET_L1 :: "vaddr_t \<Rightarrow> u64" where
  "GET_VA_OFFSET_L1 va = va AND (push_bit PAGE_SHIFT L1_PER_ENTRY_PAGES - 1)"
definition GET_VA_OFFSET_L2 :: "vaddr_t \<Rightarrow> u64" where
  "GET_VA_OFFSET_L2 va = va AND (push_bit PAGE_SHIFT L2_PER_ENTRY_PAGES - 1)"
definition GET_VA_OFFSET_L3 :: "vaddr_t \<Rightarrow> u64" where
  "GET_VA_OFFSET_L3 va = va AND (push_bit PAGE_SHIFT 1 - 1)"

definition NULL :: u64 where "NULL = 0"
definition KBASE :: u64 where "KBASE = 0xffffff0000000000"

definition phys_to_virt :: "paddr_t \<Rightarrow> vaddr_t" where
  "phys_to_virt pa = pa + KBASE"
definition virt_to_phys :: "vaddr_t \<Rightarrow> paddr_t" where
  "virt_to_phys va = va - KBASE"

text \<open>Protection flags of a mapping request.\<close>

definition VMR_READ :: vmr_prop_t where "VMR_READ = 1"
definition VMR_WRITE :: vmr_prop_t where "VMR_WRITE = 2"
definition VMR_EXEC :: vmr_prop_t where "VMR_EXEC = 4"
definition VMR_DEVICE :: vmr_prop_t where "VMR_DEVICE = 8"
definition VMR_NOCACHE :: vmr_prop_t where "VMR_NOCACHE = 16"

text \<open>Values written into the descriptor fields.\<close>

definition AARCH64_MMU_ATTR_PAGE_AP_HIGH_RW_EL0_RW :: u64 where
  "AARCH64_MMU_ATTR_PAGE_AP_HIGH_RW_EL0_RW = 1"
definition AARCH64_MMU_ATTR_PAGE_AP_HIGH_RO_EL0_RO :: u64 where
  "AARCH64_MMU_ATTR_PAGE_AP_HIGH_RO_EL0_RO = 3"
definition AARCH64_MMU_ATTR_PAGE_UX :: u64 where "AARCH64_MMU_ATTR_PAGE_UX = 0"
definition AARCH64_MMU_ATTR_PAGE_UXN :: u64 where "AARCH64_MMU_ATTR_PAGE_UXN = 1"
definition AARCH64_MMU_ATTR_PAGE_PXN :: u64 where "AARCH64_MMU_ATTR_PAGE_PXN = 1"
definition AARCH64_MMU_ATTR_PAGE_AF_ACCESSED :: u64 where
  "AARCH64_MMU_ATTR_PAGE_AF_ACCESSED = 1"
definition INNER_SHAREABLE :: u64 where "INNER_SHAREABLE = 3"
definition NORMAL_MEMORY :: u64 where "NORMAL_MEMORY = 4"
definition DEVICE_MEMORY :: u64 where "DEVICE_MEMORY = 0"
definition NORMAL_MEMORY_NOCACHE :: u64 where "NORMAL_MEMORY_NOCACHE = 3"

definition PTE_DESCRIPTOR_INVALID :: u64 where "PTE_DESCRIPTOR_INVALID = 0"

section \<open>Descriptor bit-fields\<close>

text \<open>
  A C bit-field of width \<open>w\<close> at bit \<open>lo\<close> of the 64-bit descriptor: reading it, and
  assigning to it (the assigned value is truncated to the field, the other bits stay).
\<close>

definition bf_get :: "nat \<Rightarrow> nat \<Rightarrow> u64 \<Rightarrow> u64" where
  "bf_get lo w x = take_bit w (drop_bit lo x)"

definition bf_set :: "nat \<Rightarrow> nat \<Rightarrow> u64 \<Rightarrow> u64 \<Rightarrow> u64" where
  "bf_set lo w v x = (x AND NOT (push_bit lo (mask w))) OR push_bit lo (take_bit w v)"

text \<open>Fields shared by all variants of \<^verbatim>\<open>pte_t\<close>.\<close>

definition get_is_valid :: "u64 \<Rightarrow> u64" where "get_is_valid = bf_get 0 1"
definition set_is_valid :: "u64 \<Rightarrow> u64 \<Rightarrow> u64" where "set_is_valid = bf_set 0 1"
definition get_is_table :: "u64 \<Rightarrow> u64" where "get_is_table = bf_get 1 1"
definition set_is_table :: "u64 \<Rightarrow> u64 \<Rightarrow> u64" where "set_is_table = bf_set 1 1"

text \<open>Variant \<^verbatim>\<open>table\<close>.\<close>

definition get_next_table_addr :: "u64 \<Rightarrow> u64" where "get_next_table_addr = bf_get 12 36"
definition set_next_table_addr :: "u64 \<Rightarrow> u64 \<Rightarrow> u64" where "set_next_table_addr = bf_set 12 36"

text \<open>Variants \<^verbatim>\<open>l1_block\<close> and \<^verbatim>\<open>l2_block\<close>: only the frame number differs from a page.\<close>

definition set_l1_block_pfn :: "u64 \<Rightarrow> u64 \<Rightarrow> u64" where "set_l1_block_pfn = bf_set 30 18"
definition set_l2_block_pfn :: "u64 \<Rightarrow> u64 \<Rightarrow> u64" where "set_l2_block_pfn = bf_set 21 27"

text \<open>Variant \<^verbatim>\<open>l3_page\<close>.\<close>

definition get_is_page :: "u64 \<Rightarrow> u64" where "get_is_page = bf_get 1 1"
definition set_is_page :: "u64 \<Rightarrow> u64 \<Rightarrow> u64" where "set_is_page = bf_set 1 1"
definition get_attr_index :: "u64 \<Rightarrow> u64" where "get_attr_index = bf_get 2 3"
definition set_attr_index :: "u64 \<Rightarrow> u64 \<Rightarrow> u64" where "set_attr_index = bf_set 2 3"
definition get_AP :: "u64 \<Rightarrow> u64" where "get_AP = bf_get 6 2"
definition set_AP :: "u64 \<Rightarrow> u64 \<Rightarrow> u64" where "set_AP = bf_set 6 2"
definition get_SH :: "u64 \<Rightarrow> u64" where "get_SH = bf_get 8 2"
definition set_SH :: "u64 \<Rightarrow> u64 \<Rightarrow> u64" where "set_SH = bf_set 8 2"
definition get_AF :: "u64 \<Rightarrow> u64" where "get_AF = bf_get 10 1"
definition set_AF :: "u64 \<Rightarrow> u64 \<Rightarrow> u64" where "set_AF = bf_set 10 1"
definition get_nG :: "u64 \<Rightarrow> u64" where "get_nG = bf_get 11 1"
definition set_nG :: "u64 \<Rightarrow> u64 \<Rightarrow> u64" where "set_nG = bf_set 11 1"
definition get_l3_page_pfn :: "u64 \<Rightarrow> u64" where "get_l3_page_pfn = bf_get 12 36"
definition set_l3_page_pfn :: "u64 \<Rightarrow> u64 \<Rightarrow> u64" where "set_l3_page_pfn = bf_set 12 36"
definition get_PXN :: "u64 \<Rightarrow> u64" where "get_PXN = bf_get 53 1"
definition set_PXN :: "u64 \<Rightarrow> u64 \<Rightarrow> u64" where "set_PXN = bf_set 53 1"
definition get_UXN :: "u64 \<Rightarrow> u64" where "get_UXN = bf_get 54 1"
definition set_UXN :: "u64 \<Rightarrow> u64 \<Rightarrow> u64" where "set_UXN = bf_set 54 1"

definition AARCH64_MMU_PTE_INVALID_MASK :: u64 where "AARCH64_MMU_PTE_INVALID_MASK = 1"
definition AARCH64_MMU_PTE_TABLE_MASK :: u64 where "AARCH64_MMU_PTE_TABLE_MASK = 2"

definition IS_PTE_INVALID :: "u64 \<Rightarrow> bool" where
  "IS_PTE_INVALID pte = (pte AND AARCH64_MMU_PTE_INVALID_MASK = 0)"
definition IS_PTE_TABLE :: "u64 \<Rightarrow> bool" where
  "IS_PTE_TABLE pte = (pte AND AARCH64_MMU_PTE_TABLE_MASK \<noteq> 0)"

section \<open>The descriptor encoder\<close>

datatype fault = BUG | NULL_DEREF

definition USER_PTE :: int where "USER_PTE = 0"

text \<open>
  \<^verbatim>\<open>set_pte_flags(entry, flags, kind)\<close>: the descriptor is passed and returned by value;
  \<^verbatim>\<open>BUG_ON\<close> is the fault \<open>BUG\<close>.
\<close>

definition set_pte_flags :: "u64 \<Rightarrow> vmr_prop_t \<Rightarrow> int \<Rightarrow> fault + u64" where
  "set_pte_flags entry flags kind =
     (if kind \<noteq> USER_PTE then Inl BUG
      else
        let e1 = (if flags AND VMR_WRITE \<noteq> 0
                  then set_AP AARCH64_MMU_ATTR_PAGE_AP_HIGH_RW_EL0_RW entry
                  else set_AP AARCH64_MMU_ATTR_PAGE_AP_HIGH_RO_EL0_RO entry);
            e2 = (if flags AND VMR_EXEC \<noteq> 0
                  then set_UXN AARCH64_MMU_ATTR_PAGE_UX e1
                  else set_UXN AARCH64_MMU_ATTR_PAGE_UXN e1);
            e3 = set_PXN AARCH64_MMU_ATTR_PAGE_PXN e2;
            e4 = set_AF AARCH64_MMU_ATTR_PAGE_AF_ACCESSED e3;
            e5 = set_nG 1 e4;
            e6 = set_SH INNER_SHAREABLE e5;
            e7 = (if flags AND VMR_DEVICE \<noteq> 0
                  then set_SH 0 (set_attr_index DEVICE_MEMORY e6)
                  else if flags AND VMR_NOCACHE \<noteq> 0
                  then set_attr_index NORMAL_MEMORY_NOCACHE e6
                  else set_attr_index NORMAL_MEMORY e6)
        in Inr e7)"

section \<open>Kernel memory and the page allocator\<close>

text \<open>
  Table pages live in raw memory and are reached through kernel virtual addresses.
  \<open>mem s a\<close> is the 64-bit descriptor stored at address \<open>a\<close>; entry \<open>i\<close> of the table page
  at \<open>ptp\<close> is at \<open>ptp + 8 * i\<close>.

  Modelled from the spec: the physical page allocator (\<^verbatim>\<open>get_pages\<close>, \<^verbatim>\<open>free_pages\<close>)
  is an external collaborator. Its state is the sequence \<open>pool\<close> of pages it hands out next;
  an empty pool makes \<^verbatim>\<open>get_pages\<close> return \<^verbatim>\<open>NULL\<close>. \<open>freed\<close> logs, in
  call order, the pages passed to \<^verbatim>\<open>free_pages\<close>.
\<close>

record kstate =
  mem :: "u64 \<Rightarrow> u64"
  pool :: "u64 list"
  freed :: "u64 list"

definition ent_addr :: "u64 \<Rightarrow> nat \<Rightarrow> u64" where
  "ent_addr ptp i = ptp + 8 * of_nat i"

definition read_pte :: "kstate \<Rightarrow> u64 \<Rightarrow> nat \<Rightarrow> u64" where
  "read_pte s ptp i = mem s (ent_addr ptp i)"

definition write_pte :: "u64 \<Rightarrow> nat \<Rightarrow> u64 \<Rightarrow> kstate \<Rightarrow> kstate" where
  "write_pte ptp i v s = s\<lparr>mem := (mem s)(ent_addr ptp i := v)\<rparr>"

definition get_pages :: "kstate \<Rightarrow> u64 \<times> kstate" where
  "get_pages s = (case pool s of [] \<Rightarrow> (NULL, s) | p # ps \<Rightarrow> (p, s\<lparr>pool := ps\<rparr>))"

definition free_pages :: "u64 \<Rightarrow> kstate \<Rightarrow> kstate" where
  "free_pages p s = s\<lparr>freed := freed s @ [p]\<rparr>"

text \<open>\<^verbatim>\<open>memset(ptp, 0, PAGE_SIZE)\<close>.\<close>

definition memset_page :: "u64 \<Rightarrow> kstate \<Rightarrow> kstate" where
  "memset_page ptp s = s\<lparr>mem := (\<lambda>a. if a - ptp < PAGE_SIZE then 0 else mem s a)\<rparr>"

definition GET_PADDR_IN_PTE :: "u64 \<Rightarrow> paddr_t" where
  "GET_PADDR_IN_PTE e = push_bit PAGE_SHIFT (get_next_table_addr e)"
definition GET_NEXT_PTP :: "u64 \<Rightarrow> u64" where
  "GET_NEXT_PTP e = phys_to_virt (GET_PADDR_IN_PTE e)"

section \<open>The tree walker\<close>

text \<open>
  The result of \<^verbatim>\<open>get_next_ptp\<close>: \<^verbatim>\<open>-ENOMAPPING\<close>, or \<^verbatim>\<open>NORMAL_PTP\<close> / \<^verbatim>\<open>BLOCK_PTP\<close>
  together with the two out-parameters \<^verbatim>\<open>next_ptp\<close> and \<^verbatim>\<open>pte\<close> (the address of the
  entry), which the C code writes only when it does not return \<^verbatim>\<open>-ENOMAPPING\<close>.
\<close>

datatype walk_res = ENOMAPPING | NORMAL_PTP u64 u64 | BLOCK_PTP u64 u64

text \<open>The \<^verbatim>\<open>switch (level)\<close> that selects the index macro (levels above 3 are a \<open>BUG\<close>).\<close>

definition level_index :: "nat \<Rightarrow> vaddr_t \<Rightarrow> nat" where
  "level_index level va =
     (if level = 0 then GET_L0_INDEX va
      else if level = 1 then GET_L1_INDEX va
      else if level = 2 then GET_L2_INDEX va
      else GET_L3_INDEX va)"

text \<open>The out-parameters after a call: \<^verbatim>\<open>-ENOMAPPING\<close> leaves the caller's variables as they were.\<close>

fun is_ENOMAPPING :: "walk_res \<Rightarrow> bool" where
  "is_ENOMAPPING ENOMAPPING = True"
| "is_ENOMAPPING _ = False"

fun is_BLOCK_PTP :: "walk_res \<Rightarrow> bool" where
  "is_BLOCK_PTP (BLOCK_PTP _ _) = True"
| "is_BLOCK_PTP _ = False"

fun next_ptp_of :: "walk_res \<Rightarrow> u64 \<Rightarrow> u64" where
  "next_ptp_of ENOMAPPING cur = cur"
| "next_ptp_of (NORMAL_PTP n e) cur = n"
| "next_ptp_of (BLOCK_PTP n e) cur = n"

fun pte_of :: "walk_res \<Rightarrow> u64 \<Rightarrow> u64" where
  "pte_of ENOMAPPING old = old"
| "pte_of (NORMAL_PTP n e) old = e"
| "pte_of (BLOCK_PTP n e) old = e"

definition ptp_result :: "kstate \<Rightarrow> u64 \<Rightarrow> fault + (walk_res \<times> kstate)" where
  "ptp_result s entry =
     (if IS_PTE_TABLE (mem s entry)
      then Inr (NORMAL_PTP (GET_NEXT_PTP (mem s entry)) entry, s)
      else Inr (BLOCK_PTP (GET_NEXT_PTP (mem s entry)) entry, s))"

definition get_next_ptp ::
  "kstate \<Rightarrow> u64 \<Rightarrow> nat \<Rightarrow> vaddr_t \<Rightarrow> bool \<Rightarrow> fault + (walk_res \<times> kstate)" where
  "get_next_ptp s cur_ptp level va alloc =
     (if cur_ptp = NULL then Inr (ENOMAPPING, s)
      else if 3 < level then Inl BUG
      else
        let index = level_index level va;
            entry = ent_addr cur_ptp index
        in
          if IS_PTE_INVALID (mem s entry) then
            if \<not> alloc then Inr (ENOMAPPING, s)
            else
              let (new_ptp, s1) = get_pages s
              in
                if new_ptp = NULL then Inl BUG
                else
                  let s2 = memset_page new_ptp s1;
                      new_ptp_paddr = virt_to_phys new_ptp;
                      new_pte_val =
                        set_next_table_addr (drop_bit PAGE_SHIFT new_ptp_paddr)
                          (set_is_table 1 (set_is_valid 1 0))
                  in ptp_result (s2\<lparr>mem := (mem s2)(entry := new_pte_val)\<rparr>) entry
          else ptp_result s entry)"

section \<open>Query\<close>

text \<open>
  \<^verbatim>\<open>query_in_pgtbl\<close> returns \<^verbatim>\<open>-ENOMAPPING\<close>, or 0 with the physical address in
  \<^verbatim>\<open>*pa\<close> and the address of the leaf descriptor in \<^verbatim>\<open>*entry\<close>.
\<close>

datatype query_res = Q_ENOMAPPING | Q_OK paddr_t u64

definition query_in_pgtbl :: "kstate \<Rightarrow> u64 \<Rightarrow> vaddr_t \<Rightarrow> fault + (query_res \<times> kstate)" where
  "query_in_pgtbl s pgtbl va =
     (case get_next_ptp s pgtbl 0 va False of
        Inl f \<Rightarrow> Inl f
      | Inr (res0, s0) \<Rightarrow>
          if is_ENOMAPPING res0 then Inr (Q_ENOMAPPING, s0)
          else
            (case get_next_ptp s0 (next_ptp_of res0 pgtbl) 1 va False of
               Inl f \<Rightarrow> Inl f
             | Inr (res1, s1) \<Rightarrow>
                 if is_ENOMAPPING res1 then Inr (Q_ENOMAPPING, s1)
                 else if is_BLOCK_PTP res1
                 then Inr (Q_OK (virt_to_phys (next_ptp_of res1 NULL) + GET_VA_OFFSET_L1 va)
                             (pte_of res1 NULL), s1)
                 else
                   (case get_next_ptp s1 (next_ptp_of res1 NULL) 2 va False of
                      Inl f \<Rightarrow> Inl f
                    | Inr (res2, s2) \<Rightarrow>
                        if is_ENOMAPPING res2 then Inr (Q_ENOMAPPING, s2)
                        else if is_BLOCK_PTP res2
                        then Inr (Q_OK (virt_to_phys (next_ptp_of res2 NULL) + GET_VA_OFFSET_L2 va)
                                    (pte_of res2 NULL), s2)
                        else
                          (case get_next_ptp s2 (next_ptp_of res2 NULL) 3 va False of
                             Inl f \<Rightarrow> Inl f
                           | Inr (res3, s3) \<Rightarrow>
                               if is_ENOMAPPING res3 then Inr (Q_ENOMAPPING, s3)
                               else Inr (Q_OK (virt_to_phys (next_ptp_of res3 NULL)
                                                 + GET_VA_OFFSET_L3 va)
                                           (pte_of res3 NULL), s3)))))"

section \<open>Mapping\<close>

text \<open>
  The four mapping loops of the source (the one of \<^verbatim>\<open>map_range_in_pgtbl\<close> and the three
  of \<^verbatim>\<open>map_range_in_pgtbl_huge\<close>) have one shape and differ in the level of the leaf,
  the fresh descriptor \<open>mk pa\<close> handed to \<^verbatim>\<open>set_pte_flags\<close> and the step
  \<open>page_size\<close>. \<open>fill_ptes\<close> is the inner \<^verbatim>\<open>for\<close> loop over the entries of one table page,
  \<open>walk_alloc\<close> the calls of \<^verbatim>\<open>get_next_ptp\<close> with allocation (their results are ignored by
  the source), \<open>map_loop\<close> the outer \<^verbatim>\<open>while (page_num > 0)\<close>.
\<close>

function fill_ptes ::
  "(paddr_t \<Rightarrow> u64) \<Rightarrow> u64 \<Rightarrow> vmr_prop_t \<Rightarrow> kstate \<Rightarrow> u64 \<Rightarrow> nat \<Rightarrow> vaddr_t \<Rightarrow> paddr_t \<Rightarrow> u64
     \<Rightarrow> fault + (kstate \<times> vaddr_t \<times> paddr_t \<times> u64)" where
  "fill_ptes mk page_size flags s ptp i va pa page_num =
     (if i < PTP_ENTRIES then
        (case set_pte_flags (mk pa) flags USER_PTE of
           Inl f \<Rightarrow> Inl f
         | Inr new_pte_val \<Rightarrow>
             if page_num - 1 = 0
             then Inr (write_pte ptp i new_pte_val s, va + page_size, pa + page_size, page_num - 1)
             else fill_ptes mk page_size flags (write_pte ptp i new_pte_val s) ptp (i + 1)
                    (va + page_size) (pa + page_size) (page_num - 1))
      else Inr (s, va, pa, page_num))"
  by pat_completeness auto
termination
  by (relation "measure (\<lambda>(mk, page_size, flags, s, ptp, i, va, pa, page_num). PTP_ENTRIES - i)") auto

fun walk_alloc :: "kstate \<Rightarrow> u64 \<Rightarrow> nat list \<Rightarrow> vaddr_t \<Rightarrow> fault + (u64 \<times> kstate)" where
  "walk_alloc s cur [] va = Inr (cur, s)"
| "walk_alloc s cur (level # levels) va =
     (case get_next_ptp s cur level va True of
        Inl f \<Rightarrow> Inl f
      | Inr (res, s1) \<Rightarrow> walk_alloc s1 (next_ptp_of res cur) levels va)"

declare fill_ptes.simps [simp del]

lemma level_index_less: "level_index level va < PTP_ENTRIES"
proof -
  have "unat (w AND PTP_INDEX_MASK) < PTP_ENTRIES" for w :: u64
  proof -
    have "w AND PTP_INDEX_MASK \<le> PTP_INDEX_MASK" by (rule word_and_le1)
    then have "unat (w AND PTP_INDEX_MASK) \<le> unat PTP_INDEX_MASK" by (simp add: word_le_nat_alt)
    then show ?thesis by (simp add: PTP_INDEX_MASK_def PTP_ENTRIES_def)
  qed
  then show ?thesis
    by (simp add: level_index_def GET_L0_INDEX_def GET_L1_INDEX_def GET_L2_INDEX_def
        GET_L3_INDEX_def)
qed

lemma fill_ptes_page_num_less:
  "fill_ptes mk page_size flags s ptp i va pa page_num = Inr (s', va', pa', page_num')
   \<Longrightarrow> i < PTP_ENTRIES \<Longrightarrow> page_num \<noteq> 0 \<Longrightarrow> unat page_num' < unat page_num"
proof (induction mk page_size flags s ptp i va pa page_num rule: fill_ptes.induct)
  case (1 mk page_size flags s ptp i va pa page_num)
  from "1.prems"(3) have dec: "unat (page_num - 1) < unat page_num"
    by (simp add: unat_minus_one unat_gt_0)
  from "1.prems"(1,2) obtain v where v: "set_pte_flags (mk pa) flags USER_PTE = Inr v"
    by (subst (asm) fill_ptes.simps) (auto split: sum.splits)
  show ?case
  proof (cases "page_num - 1 = 0")
    case True
    with "1.prems"(1,2) v dec show ?thesis
      by (subst (asm) fill_ptes.simps) auto
  next
    case False
    with "1.prems"(1,2) v have rec:
      "fill_ptes mk page_size flags (write_pte ptp i v s) ptp (i + 1) (va + page_size)
         (pa + page_size) (page_num - 1) = Inr (s', va', pa', page_num')"
      by (subst (asm) fill_ptes.simps) auto
    show ?thesis
    proof (cases "i + 1 < PTP_ENTRIES")
      case True
      from "1.IH"[OF "1.prems"(2) v False rec True False] dec show ?thesis by simp
    next
      case False
      with rec have "page_num' = page_num - 1"
        by (subst (asm) fill_ptes.simps) auto
      with dec show ?thesis by simp
    qed
  qed
qed

function map_loop ::
  "nat \<Rightarrow> (paddr_t \<Rightarrow> u64) \<Rightarrow> u64 \<Rightarrow> vmr_prop_t \<Rightarrow> kstate \<Rightarrow> u64 \<Rightarrow> vaddr_t \<Rightarrow> paddr_t \<Rightarrow> u64
     \<Rightarrow> fault + (kstate \<times> vaddr_t \<times> paddr_t)" where
  "map_loop level mk page_size flags s pgtbl va pa page_num =
     (if page_num = 0 then Inr (s, va, pa)
      else
        (case walk_alloc s pgtbl [0..<level] va of
           Inl f \<Rightarrow> Inl f
         | Inr (current_ptp, s1) \<Rightarrow>
             if current_ptp = NULL then Inl NULL_DEREF
             else
               (case fill_ptes mk page_size flags s1 current_ptp (level_index level va)
                       va pa page_num of
                  Inl f \<Rightarrow> Inl f
                | Inr (s2, va2, pa2, page_num2) \<Rightarrow>
                    map_loop level mk page_size flags s2 pgtbl va2 pa2 page_num2)))"
  by pat_completeness auto
termination
  by (relation "measure (\<lambda>(level, mk, page_size, flags, s, pgtbl, va, pa, page_num). unat page_num)")
     (auto dest: fill_ptes_page_num_less simp: level_index_less)

declare map_loop.simps [simp del]

text \<open>\<^verbatim>\<open>len / PAGE_SIZE + (len % PAGE_SIZE > 0)\<close>\<close>

definition pages_of_len :: "u64 \<Rightarrow> u64" where
  "pages_of_len len = len div PAGE_SIZE + (if len mod PAGE_SIZE > 0 then 1 else 0)"

text \<open>The fresh descriptors of the four loops, before \<^verbatim>\<open>set_pte_flags\<close>.\<close>

definition new_l3_page :: "paddr_t \<Rightarrow> u64" where
  "new_l3_page pa = set_l3_page_pfn (drop_bit PAGE_SHIFT pa) (set_is_page 1 (set_is_valid 1 0))"

definition new_l1_block :: "paddr_t \<Rightarrow> u64" where
  "new_l1_block pa =
     set_l1_block_pfn (drop_bit (PAGE_SHIFT + PAGE_ORDER + PAGE_ORDER) pa)
       (set_is_table 0 (set_is_valid 1 0))"

definition new_l2_block :: "paddr_t \<Rightarrow> u64" where
  "new_l2_block pa =
     set_l2_block_pfn (drop_bit (PAGE_SHIFT + PAGE_ORDER) pa) (set_is_table 0 (set_is_valid 1 0))"

definition new_l3_page_huge :: "paddr_t \<Rightarrow> u64" where
  "new_l3_page_huge pa =
     set_l3_page_pfn (drop_bit PAGE_SHIFT pa) (set_is_page 0 (set_is_valid 1 0))"

definition map_range_in_pgtbl ::
  "kstate \<Rightarrow> u64 \<Rightarrow> vaddr_t \<Rightarrow> paddr_t \<Rightarrow> u64 \<Rightarrow> vmr_prop_t \<Rightarrow> fault + kstate" where
  "map_range_in_pgtbl s pgtbl va pa len flags =
     (case map_loop 3 new_l3_page PAGE_SIZE flags s pgtbl va pa (pages_of_len len) of
        Inl f \<Rightarrow> Inl f
      | Inr (s', va', pa') \<Rightarrow> Inr s')"

definition map_range_in_pgtbl_huge ::
  "kstate \<Rightarrow> u64 \<Rightarrow> vaddr_t \<Rightarrow> paddr_t \<Rightarrow> u64 \<Rightarrow> vmr_prop_t \<Rightarrow> fault + kstate" where
  "map_range_in_pgtbl_huge s pgtbl va pa len flags =
     (let page_size1 = PAGE_SIZE * of_nat PTP_ENTRIES * of_nat PTP_ENTRIES;
          page_num1 = len div page_size1;
          len1 = len - page_num1 * page_size1
      in
        case map_loop 1 new_l1_block page_size1 flags s pgtbl va pa page_num1 of
          Inl f \<Rightarrow> Inl f
        | Inr (s1, va1, pa1) \<Rightarrow>
            let page_size2 = PAGE_SIZE * of_nat PTP_ENTRIES;
                page_num2 = len1 div page_size2;
                len2 = len1 - page_num2 * page_size2
            in
              (case map_loop 2 new_l2_block page_size2 flags s1 pgtbl va1 pa1 page_num2 of
                 Inl f \<Rightarrow> Inl f
               | Inr (s2, va2, pa2) \<Rightarrow>
                   (case map_loop 3 new_l3_page_huge PAGE_SIZE flags s2 pgtbl va2 pa2
                           (pages_of_len len2) of
                      Inl f \<Rightarrow> Inl f
                    | Inr (s3, va3, pa3) \<Rightarrow> Inr s3)))"

section \<open>Unmapping\<close>

text \<open>The inner \<^verbatim>\<open>for\<close> loop of both unmappers: it invalidates entries of one L3 table.\<close>

function clear_ptes :: "kstate \<Rightarrow> u64 \<Rightarrow> nat \<Rightarrow> vaddr_t \<Rightarrow> u64 \<Rightarrow> kstate \<times> vaddr_t \<times> u64" where
  "clear_ptes s ptp i va page_num =
     (if i < PTP_ENTRIES then
        if page_num - 1 = 0
        then (write_pte ptp i PTE_DESCRIPTOR_INVALID s, va + PAGE_SIZE, page_num - 1)
        else clear_ptes (write_pte ptp i PTE_DESCRIPTOR_INVALID s) ptp (i + 1)
               (va + PAGE_SIZE) (page_num - 1)
      else (s, va, page_num))"
  by pat_completeness auto
termination
  by (relation "measure (\<lambda>(s, ptp, i, va, page_num). PTP_ENTRIES - i)") auto

declare clear_ptes.simps [simp del]

text \<open>
  The outer \<^verbatim>\<open>while (page_num > 0)\<close> of \<^verbatim>\<open>unmap_range_in_pgtbl\<close> (\<open>huge = False\<close>) and of
  \<^verbatim>\<open>unmap_range_in_pgtbl_huge\<close> (\<open>huge = True\<close>, which adds the two \<^verbatim>\<open>BLOCK_PTP\<close>
  branches). \<^verbatim>\<open>page_num\<close> is an unsigned 64-bit counter and the skips subtract from it
  with wrap-around, so the loop need not end: the first argument bounds the number of
  evaluations of the loop condition, and \<open>None\<close> says that the bound was reached.
\<close>

fun unmap_loop ::
  "bool \<Rightarrow> nat \<Rightarrow> kstate \<Rightarrow> u64 \<Rightarrow> vaddr_t \<Rightarrow> u64 \<Rightarrow> (fault + kstate) option" where
  "unmap_loop huge 0 s pgtbl va page_num = None"
| "unmap_loop huge (Suc fuel) s pgtbl va page_num =
     (if page_num = 0 then Some (Inr s)
      else
        (case get_next_ptp s pgtbl 0 va False of
           Inl f \<Rightarrow> Some (Inl f)
         | Inr (res0, s0) \<Rightarrow>
             if is_ENOMAPPING res0
             then unmap_loop huge fuel s0 pgtbl (va + L0_PER_ENTRY_PAGES * PAGE_SIZE)
                    (page_num - L0_PER_ENTRY_PAGES)
             else
               (case get_next_ptp s0 (next_ptp_of res0 pgtbl) 1 va False of
                  Inl f \<Rightarrow> Some (Inl f)
                | Inr (res1, s1) \<Rightarrow>
                    if is_ENOMAPPING res1
                    then unmap_loop huge fuel s1 pgtbl (va + L1_PER_ENTRY_PAGES * PAGE_SIZE)
                           (page_num - L1_PER_ENTRY_PAGES)
                    else if huge \<and> is_BLOCK_PTP res1
                    then unmap_loop huge fuel
                           (s1\<lparr>mem := (mem s1)(pte_of res1 NULL := PTE_DESCRIPTOR_INVALID)\<rparr>) pgtbl
                           (va + PAGE_SIZE * of_nat PTP_ENTRIES * of_nat PTP_ENTRIES)
                           (page_num - of_nat PTP_ENTRIES * of_nat PTP_ENTRIES)
                    else
                      (case get_next_ptp s1 (next_ptp_of res1 NULL) 2 va False of
                         Inl f \<Rightarrow> Some (Inl f)
                       | Inr (res2, s2) \<Rightarrow>
                           if is_ENOMAPPING res2
                           then unmap_loop huge fuel s2 pgtbl
                                  (va + L2_PER_ENTRY_PAGES * PAGE_SIZE)
                                  (page_num - L2_PER_ENTRY_PAGES)
                           else if huge \<and> is_BLOCK_PTP res2
                           then unmap_loop huge fuel
                                  (s2\<lparr>mem := (mem s2)(pte_of res2 NULL := PTE_DESCRIPTOR_INVALID)\<rparr>)
                                  pgtbl (va + PAGE_SIZE * of_nat PTP_ENTRIES)
                                  (page_num - of_nat PTP_ENTRIES)
                           else if next_ptp_of res2 NULL = NULL then Some (Inl NULL_DEREF)
                           else
                             (case clear_ptes s2 (next_ptp_of res2 NULL) (GET_L3_INDEX va)
                                     va page_num of
                                (s3, va3, page_num3) \<Rightarrow>
                                  unmap_loop huge fuel s3 pgtbl va3 page_num3)))))"

definition unmap_range_in_pgtbl ::
  "nat \<Rightarrow> kstate \<Rightarrow> u64 \<Rightarrow> vaddr_t \<Rightarrow> u64 \<Rightarrow> (fault + kstate) option" where
  "unmap_range_in_pgtbl fuel s pgtbl va len = unmap_loop False fuel s pgtbl va (pages_of_len len)"

definition unmap_range_in_pgtbl_huge ::
  "nat \<Rightarrow> kstate \<Rightarrow> u64 \<Rightarrow> vaddr_t \<Rightarrow> u64 \<Rightarrow> (fault + kstate) option" where
  "unmap_range_in_pgtbl_huge fuel s pgtbl va len =
     unmap_loop True fuel s pgtbl va (pages_of_len len)"

section \<open>Freeing the tree\<close>

text \<open>The three nested \<^verbatim>\<open>for\<close> loops of \<^verbatim>\<open>free_page_table\<close>, innermost first.\<close>

definition free_l2_loop :: "u64 \<Rightarrow> kstate \<Rightarrow> kstate" where
  "free_l2_loop l2_ptp s =
     fold (\<lambda>k s. let l2_pte = read_pte s l2_ptp k
                 in if IS_PTE_INVALID l2_pte \<or> \<not> IS_PTE_TABLE l2_pte then s
                    else free_pages (GET_NEXT_PTP l2_pte) s)
       [0..<PTP_ENTRIES] s"

definition free_l1_loop :: "u64 \<Rightarrow> kstate \<Rightarrow> kstate" where
  "free_l1_loop l1_ptp s =
     fold (\<lambda>j s. let l1_pte = read_pte s l1_ptp j
                 in if IS_PTE_INVALID l1_pte \<or> \<not> IS_PTE_TABLE l1_pte then s
                    else free_pages (GET_NEXT_PTP l1_pte)
                           (free_l2_loop (GET_NEXT_PTP l1_pte) s))
       [0..<PTP_ENTRIES] s"

definition free_l0_loop :: "u64 \<Rightarrow> kstate \<Rightarrow> kstate" where
  "free_l0_loop l0_ptp s =
     fold (\<lambda>i s. let l0_pte = read_pte s l0_ptp i
                 in if IS_PTE_INVALID l0_pte \<or> \<not> IS_PTE_TABLE l0_pte then s
                    else free_pages (GET_NEXT_PTP l0_pte)
                           (free_l1_loop (GET_NEXT_PTP l0_pte) s))
       [0..<PTP_ENTRIES] s"

definition free_page_table :: "u64 \<Rightarrow> kstate \<Rightarrow> kstate" where
  "free_page_table pgtbl s =
     (if pgtbl = NULL then s else free_pages pgtbl (free_l0_loop pgtbl s))"

section \<open>Concrete states\<close>

text \<open>
  A state as the tests of the source set it up: all memory zero (so any page taken as a
  root is zero-initialised) and a given sequence of free pages.
\<close>

definition fresh_state :: "u64 list \<Rightarrow> kstate" where
  "fresh_state pages = \<lparr>mem = (\<lambda>a. 0), pool = pages, freed = []\<rparr>"

definition test_pgtbl :: u64 where "test_pgtbl = KBASE + 0x100000"

definition test_pool :: "u64 list" where
  "test_pool = [KBASE + 0x200000, KBASE + 0x201000, KBASE + 0x202000, KBASE + 0x203000]"

section \<open>The walk of the query, flattened\<close>

text \<open>
  \<open>query_in_pgtbl\<close> with its four calls of \<open>get_next_ptp\<close> unfolded, as a function of the
  memory: the form in which the proofs about mapped ranges use it.
\<close>

definition translate_spec :: "(u64 \<Rightarrow> u64) \<Rightarrow> u64 \<Rightarrow> vaddr_t \<Rightarrow> query_res" where
  "translate_spec m root va =
     (let a0 = ent_addr root (GET_L0_INDEX va); t1 = GET_NEXT_PTP (m a0);
          a1 = ent_addr t1 (GET_L1_INDEX va); t2 = GET_NEXT_PTP (m a1);
          a2 = ent_addr t2 (GET_L2_INDEX va); t3 = GET_NEXT_PTP (m a2);
          a3 = ent_addr t3 (GET_L3_INDEX va)
      in
        if root = NULL \<or> IS_PTE_INVALID (m a0) then Q_ENOMAPPING
        else if t1 = NULL \<or> IS_PTE_INVALID (m a1) then Q_ENOMAPPING
        else if \<not> IS_PTE_TABLE (m a1)
        then Q_OK (GET_PADDR_IN_PTE (m a1) + take_bit 30 va) a1
        else if t2 = NULL \<or> IS_PTE_INVALID (m a2) then Q_ENOMAPPING
        else if \<not> IS_PTE_TABLE (m a2)
        then Q_OK (GET_PADDR_IN_PTE (m a2) + take_bit 21 va) a2
        else if t3 = NULL \<or> IS_PTE_INVALID (m a3) then Q_ENOMAPPING
        else Q_OK (GET_PADDR_IN_PTE (m a3) + take_bit 12 va) a3)"

section \<open>The tree behind a root\<close>

text \<open>A pointer is page-aligned when its low 12 bits are zero.\<close>

definition page_aligned :: "u64 \<Rightarrow> bool" where
  "page_aligned p = (take_bit 12 p = 0)"

text \<open>The pages the allocator may hand out: page-aligned, non-null and in the linear
  map of a 48-bit physical address space.\<close>

definition good_page :: "u64 \<Rightarrow> bool" where
  "good_page p = (page_aligned p \<and> p \<noteq> NULL \<and> virt_to_phys p < 2 ^ 48)"

text \<open>An entry that the walker follows to a next-level table.\<close>

definition valid_table :: "u64 \<Rightarrow> bool" where
  "valid_table e = (\<not> IS_PTE_INVALID e \<and> IS_PTE_TABLE e)"

text \<open>The descriptor that \<open>get_next_ptp\<close> installs for a new table page.\<close>

definition table_desc :: "u64 \<Rightarrow> u64" where
  "table_desc p = set_next_table_addr (drop_bit PAGE_SHIFT (virt_to_phys p))
                    (set_is_table 1 (set_is_valid 1 0))"

text \<open>The tree as the walker sees it. A path is the list of the indices taken from the
  root, the deepest first; \<open>tbl\<close> is the table page a path leads to and \<open>present\<close> says
  that every entry on the path is a valid table entry.\<close>

fun tbl :: "(u64 \<Rightarrow> u64) \<Rightarrow> u64 \<Rightarrow> nat list \<Rightarrow> u64" where
  "tbl m r [] = r"
| "tbl m r (i # p) = GET_NEXT_PTP (m (ent_addr (tbl m r p) i))"

fun present :: "(u64 \<Rightarrow> u64) \<Rightarrow> u64 \<Rightarrow> nat list \<Rightarrow> bool" where
  "present m r [] = True"
| "present m r (i # p) = (present m r p \<and> valid_table (m (ent_addr (tbl m r p) i)))"

text \<open>Paths of length at most \<open>n\<close> with indices inside a table page.\<close>

definition okpath :: "nat \<Rightarrow> nat list \<Rightarrow> bool" where
  "okpath n p = (length p \<le> n \<and> (\<forall>i\<in>set p. i < 512))"

text \<open>A leaf: a valid entry at level 3, or a valid non-table entry above.\<close>

definition is_leaf :: "nat \<Rightarrow> u64 \<Rightarrow> bool" where
  "is_leaf depth e = (\<not> IS_PTE_INVALID e \<and> (depth = 3 \<or> \<not> IS_PTE_TABLE e))"

text \<open>The slots (path of the table, index) of the tree that hold a leaf.\<close>

definition leaves :: "(u64 \<Rightarrow> u64) \<Rightarrow> u64 \<Rightarrow> (nat list \<times> nat) set" where
  "leaves m r = {(p, i). okpath 3 p \<and> present m r p \<and> i < 512 \<and>
                         is_leaf (length p) (m (ent_addr (tbl m r p) i))}"

text \<open>No table page is reached by two paths.\<close>

definition inj_tree :: "(u64 \<Rightarrow> u64) \<Rightarrow> u64 \<Rightarrow> bool" where
  "inj_tree m r = (\<forall>p q. okpath 3 p \<and> okpath 3 q \<and> present m r p \<and> present m r q \<and>
                         tbl m r p = tbl m r q \<longrightarrow> p = q)"

text \<open>The allocation step of the walker: an invalid entry becomes a table entry for a
  zeroed fresh page.\<close>

definition alloc_step ::
  "(u64 \<Rightarrow> u64) \<Rightarrow> u64 \<Rightarrow> nat list \<Rightarrow> nat \<Rightarrow> u64 \<Rightarrow> (u64 \<Rightarrow> u64) \<Rightarrow> bool" where
  "alloc_step m r p0 i0 pg m' =
     (page_aligned r \<and> inj_tree m r \<and> okpath 3 p0 \<and> length p0 < 3 \<and> present m r p0 \<and>
      i0 < 512 \<and> IS_PTE_INVALID (m (ent_addr (tbl m r p0) i0)) \<and> good_page pg \<and>
      (\<forall>p. okpath 3 p \<and> present m r p \<longrightarrow> tbl m r p \<noteq> pg) \<and>
      m' = (\<lambda>a. if a - pg < PAGE_SIZE then 0 else m a)(ent_addr (tbl m r p0) i0 := table_desc pg))"

text \<open>A store into a slot of the tree that does not install a table entry.\<close>

definition store_step ::
  "(u64 \<Rightarrow> u64) \<Rightarrow> u64 \<Rightarrow> nat list \<Rightarrow> nat \<Rightarrow> u64 \<Rightarrow> (u64 \<Rightarrow> u64) \<Rightarrow> bool" where
  "store_step m r p0 i0 v m' =
     (page_aligned r \<and> inj_tree m r \<and> okpath 3 p0 \<and> present m r p0 \<and> i0 < 512 \<and>
      (length p0 = 3 \<or> \<not> valid_table v) \<and> m' = m(ent_addr (tbl m r p0) i0 := v))"

text \<open>A well-formed tree: the root is a page-aligned non-null page, the allocator
  started from the distinct good pages \<open>P\<close> (the root not among them), every table page
  below the root was taken from \<open>P\<close> and is no longer in the pool, and no table page is
  reached twice.\<close>

definition tree_inv :: "u64 list \<Rightarrow> kstate \<Rightarrow> u64 \<Rightarrow> bool" where
  "tree_inv P s r =
     (page_aligned r \<and> r \<noteq> NULL \<and> r \<notin> set P \<and> distinct P \<and> (\<forall>p\<in>set P. good_page p) \<and>
      (\<exists>taken. P = taken @ pool s \<and>
         (\<forall>p. okpath 3 p \<and> p \<noteq> [] \<and> present (mem s) r p \<longrightarrow> tbl (mem s) r p \<in> set taken)) \<and>
      inj_tree (mem s) r)"

text \<open>What a walk with allocation does to a well-formed tree: the tables that were
  present stay, no leaf appears and no valid entry changes.\<close>

definition grows :: "u64 list \<Rightarrow> u64 \<Rightarrow> kstate \<Rightarrow> kstate \<Rightarrow> bool" where
  "grows P r s s' =
     (tree_inv P s' r \<and> leaves (mem s') r \<subseteq> leaves (mem s) r \<and>
      (\<forall>p. okpath 3 p \<and> present (mem s) r p
           \<longrightarrow> present (mem s') r p \<and> tbl (mem s') r p = tbl (mem s) r p) \<and>
      (\<forall>p i. okpath 3 p \<and> present (mem s) r p \<and> i < 512 \<and>
             \<not> IS_PTE_INVALID (mem s (ent_addr (tbl (mem s) r p) i))
           \<longrightarrow> mem s' (ent_addr (tbl (mem s) r p) i) = mem s (ent_addr (tbl (mem s) r p) i)) \<and>
      freed s' = freed s)"

text \<open>The path of table pages that the walk for \<open>va\<close> follows down to a given level.\<close>

fun vpath :: "nat \<Rightarrow> vaddr_t \<Rightarrow> nat list" where
  "vpath 0 va = []"
| "vpath (Suc l) va = level_index l va # vpath l va"

text \<open>The position of the index of a level in a virtual address.\<close>

definition level_shift :: "nat \<Rightarrow> nat" where
  "level_shift l = 39 - 9 * l"

text \<open>The slot that a mapping of \<open>va\<close> at level \<open>L\<close> occupies, and its address.\<close>

definition slot :: "nat \<Rightarrow> vaddr_t \<Rightarrow> nat list \<times> nat" where
  "slot L va = (vpath L va, level_index L va)"

definition slot_addr :: "(u64 \<Rightarrow> u64) \<Rightarrow> u64 \<Rightarrow> nat \<Rightarrow> vaddr_t \<Rightarrow> u64" where
  "slot_addr m r L va = ent_addr (tbl m r (vpath L va)) (level_index L va)"

text \<open>The invariant of the mapping loops after \<open>k\<close> entries of size \<open>psz\<close> at level \<open>L\<close>:
  the tree is well-formed and no deeper than \<open>L\<close>, its leaves are those of \<open>B\<close> (which all
  remain leaves) and the \<open>k\<close> slots written so far, and (when \<open>D\<close>) each of these slots holds
  the descriptor for its physical address.\<close>

definition map_inv ::
  "u64 list \<Rightarrow> u64 \<Rightarrow> nat \<Rightarrow> vaddr_t \<Rightarrow> paddr_t \<Rightarrow> u64 \<Rightarrow> (paddr_t \<Rightarrow> u64) \<Rightarrow> (nat list \<times> nat) set
     \<Rightarrow> bool \<Rightarrow> nat \<Rightarrow> kstate \<Rightarrow> bool" where
  "map_inv P r L va0 pa0 psz lv B D k s =
     (tree_inv P s r \<and>
      (\<forall>p. okpath 3 p \<and> present (mem s) r p \<longrightarrow> length p \<le> L) \<and>
      leaves (mem s) r \<subseteq> B \<union> (\<lambda>j. slot L (va0 + of_nat j * psz)) ` {..<k} \<and>
      (\<forall>j<k. present (mem s) r (vpath L (va0 + of_nat j * psz))) \<and>
      (D \<longrightarrow> (\<forall>j<k. mem s (slot_addr (mem s) r L (va0 + of_nat j * psz))
                        = lv (pa0 + of_nat j * psz))) \<and>
      B \<subseteq> leaves (mem s) r)"

text \<open>The descriptor that a mapping loop stores for a physical address.\<close>

definition leaf_val :: "(paddr_t \<Rightarrow> u64) \<Rightarrow> vmr_prop_t \<Rightarrow> paddr_t \<Rightarrow> u64" where
  "leaf_val mk flags pa = (case set_pte_flags (mk pa) flags USER_PTE of Inr e \<Rightarrow> e | Inl f \<Rightarrow> 0)"

text \<open>The index bits of an address down to a level, as one number.\<close>

definition key :: "nat \<Rightarrow> vaddr_t \<Rightarrow> nat" where
  "key L v = (unat v div 2 ^ level_shift L) mod 512 ^ Suc L"

text \<open>The invariant of the unmapping loop after \<open>k\<close> of \<open>N\<close> pages: the leaves of the tree are
  among \<open>S\<close>, the level-3 tables of the whole range are present and the first \<open>k\<close> slots
  hold no leaf.\<close>

definition unmap_inv ::
  "u64 list \<Rightarrow> u64 \<Rightarrow> (nat list \<times> nat) set \<Rightarrow> vaddr_t \<Rightarrow> nat \<Rightarrow> nat \<Rightarrow> kstate \<Rightarrow> bool" where
  "unmap_inv P r S va0 N k s =
     (tree_inv P s r \<and> leaves (mem s) r \<subseteq> S \<and>
      (\<forall>j<N. present (mem s) r (vpath 3 (va0 + of_nat j * PAGE_SIZE))) \<and>
      (\<forall>j<k. slot 3 (va0 + of_nat j * PAGE_SIZE) \<notin> leaves (mem s) r))"

text \<open>A tree of pages: a well-formed tree whose leaves are all at level 3.\<close>

definition page_tree :: "u64 list \<Rightarrow> kstate \<Rightarrow> u64 \<Rightarrow> bool" where
  "page_tree P s r = (tree_inv P s r \<and> (\<forall>x\<in>leaves (mem s) r. length (fst x) = 3))"

text \<open>
  The post-order of the specification, \<open>d\<close> levels of entries deep: for each entry of the
  page in index order, if it is a valid table entry, the pages below the table it points to
  and that table; then the page itself. Invalid entries and leaves contribute nothing.
\<close>

fun free_order :: "(u64 \<Rightarrow> u64) \<Rightarrow> nat \<Rightarrow> u64 \<Rightarrow> u64 list" where
  "free_order m 0 ptp = [ptp]"
| "free_order m (Suc d) ptp =
     concat (map (\<lambda>i. if valid_table (m (ent_addr ptp i))
                       then free_order m d (GET_NEXT_PTP (m (ent_addr ptp i))) else [])
               [0..<PTP_ENTRIES]) @ [ptp]"





text \<open>
  The bits of a block descriptor between bit 12 and the frame number (bits 12 to 29 of a
  level-1 block, bits 12 to 20 of a level-2 block) belong to no field that the mappers set;
  the descriptors they install have them clear.
\<close>

definition block_reserved_clear :: "nat \<Rightarrow> u64 \<Rightarrow> bool" where
  "block_reserved_clear level e =
     (if level = 1 then bf_get 12 18 e = 0 else if level = 2 then bf_get 12 9 e = 0 else True)"







section \<open>Bit-fields\<close>

lemma bf_get_set_same:
  "lo + w \<le> 64 \<Longrightarrow> bf_get lo w (bf_set lo w v x) = take_bit w v"
  by (rule bit_word_eqI) (auto simp: bf_get_def bf_set_def bit_simps)

lemma bf_get_set_other:
  "lo + w \<le> lo' \<or> lo' + w' \<le> lo \<Longrightarrow> bf_get lo w (bf_set lo' w' v x) = bf_get lo w x"
  by (rule bit_word_eqI) (auto simp: bf_get_def bf_set_def bit_simps dest: bit_imp_le_length)

lemmas field_defs = get_AP_def set_AP_def get_UXN_def set_UXN_def get_PXN_def set_PXN_def
  get_AF_def set_AF_def get_nG_def set_nG_def get_SH_def set_SH_def get_attr_index_def
  set_attr_index_def get_is_valid_def set_is_valid_def get_is_page_def set_is_page_def
  get_l3_page_pfn_def set_l3_page_pfn_def get_is_table_def set_is_table_def
  get_next_table_addr_def set_next_table_addr_def set_l1_block_pfn_def set_l2_block_pfn_def

lemmas attr_defs = AARCH64_MMU_ATTR_PAGE_AP_HIGH_RW_EL0_RW_def
  AARCH64_MMU_ATTR_PAGE_AP_HIGH_RO_EL0_RO_def AARCH64_MMU_ATTR_PAGE_UX_def
  AARCH64_MMU_ATTR_PAGE_UXN_def AARCH64_MMU_ATTR_PAGE_PXN_def
  AARCH64_MMU_ATTR_PAGE_AF_ACCESSED_def DEVICE_MEMORY_def NORMAL_MEMORY_NOCACHE_def
  NORMAL_MEMORY_def INNER_SHAREABLE_def

section \<open>The descriptor encoder: what it writes\<close>

text \<open>
  C6. For every flag set and every descriptor, \<open>set_pte_flags\<close> on a user PTE does not fail
  and returns a descriptor with: access permission read-write if \<open>VMR_WRITE\<close> is present and
  read-only otherwise; user execute allowed if \<open>VMR_EXEC\<close> is present and user-execute-never
  otherwise; kernel-execute-never, the access flag and the non-global bit set; and one memory
  type: Device with shareability zero if \<open>VMR_DEVICE\<close> is present, else Normal non-cacheable
  if \<open>VMR_NOCACHE\<close> is present, else Normal cacheable, the last two inner shareable. The
  validity bit, the type bit and the frame number are left as they were. The result is a
  function of the arguments, so the encoder is deterministic.
\<close>

theorem set_pte_flags_encoding:
  "\<exists>e'. set_pte_flags e flags USER_PTE = Inr e' \<and>
     get_AP e' = (if flags AND VMR_WRITE \<noteq> 0 then AARCH64_MMU_ATTR_PAGE_AP_HIGH_RW_EL0_RW
                  else AARCH64_MMU_ATTR_PAGE_AP_HIGH_RO_EL0_RO) \<and>
     get_UXN e' = (if flags AND VMR_EXEC \<noteq> 0 then AARCH64_MMU_ATTR_PAGE_UX
                   else AARCH64_MMU_ATTR_PAGE_UXN) \<and>
     get_PXN e' = AARCH64_MMU_ATTR_PAGE_PXN \<and>
     get_AF e' = AARCH64_MMU_ATTR_PAGE_AF_ACCESSED \<and>
     get_nG e' = 1 \<and>
     get_attr_index e' = (if flags AND VMR_DEVICE \<noteq> 0 then DEVICE_MEMORY
                          else if flags AND VMR_NOCACHE \<noteq> 0 then NORMAL_MEMORY_NOCACHE
                          else NORMAL_MEMORY) \<and>
     get_SH e' = (if flags AND VMR_DEVICE \<noteq> 0 then 0 else INNER_SHAREABLE) \<and>
     get_is_valid e' = get_is_valid e \<and> get_is_page e' = get_is_page e \<and>
     get_l3_page_pfn e' = get_l3_page_pfn e"
  by (simp add: set_pte_flags_def Let_def field_defs bf_get_set_same bf_get_set_other attr_defs)

section \<open>Query\<close>

lemma virt_to_phys_GET_NEXT_PTP: "virt_to_phys (GET_NEXT_PTP e) = GET_PADDR_IN_PTE e"
  by (simp add: virt_to_phys_def GET_NEXT_PTP_def phys_to_virt_def)

lemma virt_to_phys_NULL_PTP:
  "GET_NEXT_PTP e = NULL \<Longrightarrow> virt_to_phys NULL = GET_PADDR_IN_PTE e"
  using virt_to_phys_GET_NEXT_PTP[of e] by simp

lemma GET_VA_OFFSET_take_bit:
  "GET_VA_OFFSET_L1 va = take_bit 30 va"
  "GET_VA_OFFSET_L2 va = take_bit 21 va"
  "GET_VA_OFFSET_L3 va = take_bit 12 va"
  by (simp_all add: GET_VA_OFFSET_L1_def GET_VA_OFFSET_L2_def GET_VA_OFFSET_L3_def
      L1_PER_ENTRY_PAGES_def L2_PER_ENTRY_PAGES_def PAGE_SHIFT_def take_bit_eq_mask
      mask_eq_exp_minus_1)

lemma get_next_ptp_noalloc:
  "level \<le> 3 \<Longrightarrow> get_next_ptp s cur level va False =
     Inr (if cur = NULL \<or> IS_PTE_INVALID (mem s (ent_addr cur (level_index level va)))
          then ENOMAPPING
          else if IS_PTE_TABLE (mem s (ent_addr cur (level_index level va)))
          then NORMAL_PTP (GET_NEXT_PTP (mem s (ent_addr cur (level_index level va))))
                 (ent_addr cur (level_index level va))
          else BLOCK_PTP (GET_NEXT_PTP (mem s (ent_addr cur (level_index level va))))
                 (ent_addr cur (level_index level va)), s)"
  by (simp add: get_next_ptp_def ptp_result_def Let_def)

lemma query_translate_spec:
  "query_in_pgtbl s pgtbl va = Inr (translate_spec (mem s) pgtbl va, s)"
  by (simp add: query_in_pgtbl_def get_next_ptp_noalloc translate_spec_def Let_def
      virt_to_phys_GET_NEXT_PTP virt_to_phys_NULL_PTP GET_VA_OFFSET_take_bit level_index_def)

section \<open>Unmapping a range that was never mapped\<close>

lemma skip_keeps_remainder:
  "\<not> L0_PER_ENTRY_PAGES dvd page_num
   \<Longrightarrow> \<not> L0_PER_ENTRY_PAGES dvd (page_num - L0_PER_ENTRY_PAGES)"
  by (metis dvd_add dvd_refl diff_add_cancel)

text \<open>
  With a root whose entries are all invalid every iteration takes the level-0 skip, which
  subtracts \<open>512 * 512 * 512\<close> from the unsigned page count. A count that is not a multiple
  of that span never becomes zero, so the loop does not end, for any bound on its iterations.
\<close>

lemma unmap_loop_empty_root_diverges:
  assumes root: "pgtbl \<noteq> NULL"
    and empty: "\<forall>i < PTP_ENTRIES. IS_PTE_INVALID (mem s (ent_addr pgtbl i))"
  shows "\<not> L0_PER_ENTRY_PAGES dvd page_num
         \<Longrightarrow> unmap_loop huge fuel s pgtbl va page_num = None"
proof (induction fuel arbitrary: va page_num)
  case 0
  show ?case by simp
next
  case (Suc fuel)
  from Suc.prems have nz: "page_num \<noteq> 0" by auto
  have walk: "get_next_ptp s pgtbl 0 va False = Inr (ENOMAPPING, s)"
    using root empty level_index_less[of 0 va] by (simp add: get_next_ptp_noalloc)
  from Suc.IH[OF skip_keeps_remainder[OF Suc.prems]] nz walk show ?case by simp
qed

text \<open>
  C3 (the code does not do what the claim says). Unmapping one page at address 0 in a tree
  whose root is zero-initialised, where nothing was ever mapped, does not return: whatever
  the bound on the iterations of the loop, the bound is reached.
\<close>

theorem unmap_sparse_never_returns:
  "\<forall>fuel. unmap_range_in_pgtbl fuel (fresh_state []) test_pgtbl 0 4096 = None"
proof
  fix fuel
  have 1: "test_pgtbl \<noteq> NULL" by (simp add: test_pgtbl_def NULL_def KBASE_def)
  have 2: "\<forall>i < PTP_ENTRIES. IS_PTE_INVALID (mem (fresh_state []) (ent_addr test_pgtbl i))"
    by (simp add: fresh_state_def IS_PTE_INVALID_def)
  have "take_bit 27 (pages_of_len 4096) \<noteq> 0"
    by (simp add: pages_of_len_def PAGE_SIZE_def)
  then have 3: "\<not> L0_PER_ENTRY_PAGES dvd pages_of_len 4096"
    by (simp add: take_bit_eq_0_iff L0_PER_ENTRY_PAGES_def L1_PER_ENTRY_PAGES_def
        L2_PER_ENTRY_PAGES_def)
  show "unmap_range_in_pgtbl fuel (fresh_state []) test_pgtbl 0 4096 = None"
    unfolding unmap_range_in_pgtbl_def by (rule unmap_loop_empty_root_diverges[OF 1 2 3])
qed

section \<open>The remainder pages of the huge mapper\<close>

text \<open>
  C4 (the code does not do what the claim says). For one page at address 0 on a fresh root,
  \<open>map_range_in_pgtbl\<close> installs a level-3 descriptor with the page-type bit set, and
  \<open>map_range_in_pgtbl_huge\<close> installs, in the same slot, a descriptor with that bit clear:
  the two descriptors differ.
\<close>

theorem map_huge_remainder_not_page:
  "case (map_range_in_pgtbl (fresh_state test_pool) test_pgtbl 0 0 4096 0,
         map_range_in_pgtbl_huge (fresh_state test_pool) test_pgtbl 0 0 4096 0) of
     (Inr s1, Inr s2) \<Rightarrow>
        mem s1 (ent_addr (KBASE + 0x202000) 0) = 0x60000000000FD3 \<and>
        mem s2 (ent_addr (KBASE + 0x202000) 0) = 0x60000000000FD1 \<and>
        get_is_page (mem s1 (ent_addr (KBASE + 0x202000) 0)) = 1 \<and>
        get_is_page (mem s2 (ent_addr (KBASE + 0x202000) 0)) = 0
   | _ \<Rightarrow> False"
  by code_simp

section \<open>Freeing the tree\<close>

text \<open>
  C10. \<open>free_page_table\<close> with a null root returns the state unchanged: no page is passed to
  \<open>free_pages\<close> and no memory is touched.
\<close>

theorem free_page_table_null: "free_page_table NULL s = s"
  by (simp add: free_page_table_def)

section \<open>Pointers and entries\<close>

lemma unat_aligned:
  assumes "page_aligned p"
  shows "\<exists>k. unat p = 4096 * k \<and> k < 2 ^ 52"
proof -
  from assms have "take_bit 12 (unat p) = 0"
    by (simp add: page_aligned_def unsigned_take_bit_eq[symmetric] del: unsigned_take_bit_eq)
  then have "4096 dvd unat p" by (simp add: take_bit_eq_0_iff)
  then obtain k where k: "unat p = 4096 * k" by (auto simp: dvd_def)
  have "unat p < 2 ^ 64" using unsigned_less[of p, where 'a = nat] by simp
  with k have "k < 2 ^ 52" by simp
  with k show ?thesis by blast
qed

lemma unat_ent_off: "i < 512 \<Longrightarrow> unat (8 * of_nat i :: u64) = 8 * i"
  by (simp add: unat_word_ariths unat_of_nat)

lemma unat_ent_addr:
  assumes "page_aligned p" "i < 512"
  shows "unat (ent_addr p i) = unat p + 8 * i"
proof -
  from unat_aligned[OF assms(1)] obtain k where k: "unat p = 4096 * k" "k < 2 ^ 52" by blast
  have "unat p + unat (8 * of_nat i :: u64) < 2 ^ 64"
    using k assms(2) by (simp add: unat_ent_off)
  then have "unat (p + 8 * of_nat i) = unat p + unat (8 * of_nat i :: u64)"
    using unat_add_lem[of p "8 * of_nat i"] by simp
  then show ?thesis using assms(2) by (simp add: ent_addr_def unat_ent_off)
qed

lemma ent_addr_eq_iff:
  assumes "page_aligned p" "page_aligned q" "i < 512" "j < 512"
  shows "(ent_addr p i = ent_addr q j) = (p = q \<and> i = j)"
proof
  assume eq: "ent_addr p i = ent_addr q j"
  from unat_aligned[OF assms(1)] obtain k where k: "unat p = 4096 * k" by blast
  from unat_aligned[OF assms(2)] obtain l where l: "unat q = 4096 * l" by blast
  from eq have "unat (ent_addr p i) = unat (ent_addr q j)" by simp
  then have e: "4096 * k + 8 * i = 4096 * l + 8 * j"
    using assms k l by (simp add: unat_ent_addr)
  then have "(4096 * k + 8 * i) div 4096 = (4096 * l + 8 * j) div 4096" by simp
  then have kl: "k = l" using assms(3,4) by simp
  with e have "i = j" by simp
  moreover from kl k l have "p = q" by (simp add: word_unat_eq_iff)
  ultimately show "p = q \<and> i = j" by simp
qed simp

lemma memset_hit_iff:
  assumes "page_aligned p" "page_aligned q" "j < 512"
  shows "(ent_addr q j - p < PAGE_SIZE) = (q = p)"
proof -
  from unat_aligned[OF assms(1)] obtain k where k: "unat p = 4096 * k" "k < 2 ^ 52" by blast
  from unat_aligned[OF assms(2)] obtain l where l: "unat q = 4096 * l" "l < 2 ^ 52" by blast
  have a: "unat (ent_addr q j) = 4096 * l + 8 * j"
    using assms l by (simp add: unat_ent_addr)
  have "(unat (ent_addr q j - p) < 4096) = (l = k)"
    using a k l assms(3) by (simp add: unat_sub_if_size word_size) arith
  moreover have "(l = k) = (q = p)" using k l by (auto simp: word_unat_eq_iff)
  ultimately show ?thesis by (simp add: word_less_nat_alt PAGE_SIZE_def)
qed

lemma page_aligned_dvd: "page_aligned p = (2 ^ 12 dvd p)"
  by (simp add: page_aligned_def take_bit_eq_0_iff)

lemma KBASE_aligned: "page_aligned KBASE"
proof -
  have "KBASE = 2 ^ 12 * 0xffffff0000000" by (simp add: KBASE_def)
  then show ?thesis unfolding page_aligned_dvd by (metis dvd_triv_left)
qed

lemma page_aligned_add: "page_aligned a \<Longrightarrow> page_aligned b \<Longrightarrow> page_aligned (a + b)"
  unfolding page_aligned_dvd by (rule dvd_add)

lemma page_aligned_diff: "page_aligned a \<Longrightarrow> page_aligned b \<Longrightarrow> page_aligned (a - b)"
  unfolding page_aligned_dvd by (rule dvd_diff)

lemma page_aligned_push_bit: "page_aligned (push_bit 12 x)"
  unfolding page_aligned_dvd by (simp add: push_bit_eq_mult)

lemma page_aligned_GET_NEXT_PTP: "page_aligned (GET_NEXT_PTP e)"
  by (simp add: GET_NEXT_PTP_def phys_to_virt_def GET_PADDR_IN_PTE_def PAGE_SHIFT_def
      page_aligned_add page_aligned_push_bit KBASE_aligned)

lemma IS_PTE_bits:
  "IS_PTE_INVALID e = (\<not> bit e 0)" "IS_PTE_TABLE e = bit e 1"
  using and_exp_eq_0_iff_not_bit[of e 0] and_exp_eq_0_iff_not_bit[of e 1]
  by (simp_all add: IS_PTE_INVALID_def IS_PTE_TABLE_def AARCH64_MMU_PTE_INVALID_MASK_def
      AARCH64_MMU_PTE_TABLE_MASK_def)

lemma zero_invalid: "IS_PTE_INVALID 0" "\<not> valid_table 0"
  by (simp_all add: IS_PTE_bits valid_table_def)

lemma pfn_roundtrip:
  assumes "page_aligned x" "x < 2 ^ 48"
  shows "push_bit 12 (take_bit 36 (drop_bit 12 x)) = (x :: u64)"
proof (rule bit_word_eqI)
  fix n assume n: "n < LENGTH(64)"
  from assms(2) have "take_bit 48 x = x"
    by (simp add: take_bit_eq_mask less_mask_eq)
  then have hi: "\<not> bit x m" if "48 \<le> m" for m
    using that by (metis bit_take_bit_iff not_le)
  have lo: "\<not> bit x m" if "m < 12" for m
  proof -
    from assms(1) have "bit (take_bit 12 x) m = bit (0 :: u64) m"
      by (simp only: page_aligned_def)
    with that show ?thesis by (simp add: bit_take_bit_iff)
  qed
  have "bit x n \<longrightarrow> 12 \<le> n \<and> n < 48"
    using hi[of n] lo[of n] by (cases "n < 12"; cases "48 \<le> n"; simp)
  then show "bit (push_bit 12 (take_bit 36 (drop_bit 12 x))) n = bit x n"
    using n by (auto simp: bit_simps)
qed

lemma table_desc_props:
  assumes "good_page p"
  shows "GET_NEXT_PTP (table_desc p) = p" "valid_table (table_desc p)"
proof -
  from assms have al: "page_aligned (virt_to_phys p)" and lt: "virt_to_phys p < 2 ^ 48"
    by (simp_all add: good_page_def virt_to_phys_def page_aligned_diff KBASE_aligned)
  have "get_next_table_addr (table_desc p) = take_bit 36 (drop_bit 12 (virt_to_phys p))"
    by (simp add: table_desc_def field_defs bf_get_set_same PAGE_SHIFT_def)
  then have "GET_PADDR_IN_PTE (table_desc p) = virt_to_phys p"
    by (simp add: GET_PADDR_IN_PTE_def PAGE_SHIFT_def pfn_roundtrip[OF al lt])
  then show "GET_NEXT_PTP (table_desc p) = p"
    by (simp add: GET_NEXT_PTP_def phys_to_virt_def virt_to_phys_def)
  have "bit (table_desc p) 0 \<and> bit (table_desc p) 1"
    unfolding table_desc_def field_defs bf_set_def by (simp add: bit_simps)
  then show "valid_table (table_desc p)"
    by (simp add: valid_table_def IS_PTE_bits)
qed

lemma test_state_facts:
  "page_aligned test_pgtbl" "test_pgtbl \<noteq> NULL"
  "\<forall>i<512. mem (fresh_state test_pool) (ent_addr test_pgtbl i) = 0"
  "distinct (pool (fresh_state test_pool))"
  "\<forall>p\<in>set (pool (fresh_state test_pool)). good_page p"
  "test_pgtbl \<notin> set (pool (fresh_state test_pool))"
  by (simp_all add: page_aligned_def test_pgtbl_def KBASE_def NULL_def fresh_state_def
      test_pool_def good_page_def virt_to_phys_def)

lemma okpath_Cons: "okpath n (i # p) = (i < 512 \<and> length p < n \<and> okpath n p)"
  by (auto simp: okpath_def)

lemma okpath_Nil [simp]: "okpath n []"
  by (simp add: okpath_def)

lemma tbl_aligned: "page_aligned r \<Longrightarrow> page_aligned (tbl m r p)"
  by (cases p) (simp_all add: page_aligned_GET_NEXT_PTP)

lemma slot_addr_eq_iff:
  assumes "page_aligned r" "inj_tree m r"
    and "okpath 3 p" "present m r p" "i < 512"
    and "okpath 3 q" "present m r q" "j < 512"
  shows "(ent_addr (tbl m r p) i = ent_addr (tbl m r q) j) = (p = q \<and> i = j)"
proof -
  have "(ent_addr (tbl m r p) i = ent_addr (tbl m r q) j) = (tbl m r p = tbl m r q \<and> i = j)"
    using assms by (simp add: ent_addr_eq_iff tbl_aligned)
  also have "\<dots> = (p = q \<and> i = j)"
    using assms unfolding inj_tree_def by blast
  finally show ?thesis .
qed

text \<open>A store into a slot of the tree that does not create a table entry.\<close>

lemma store_frame_back:
  assumes al: "page_aligned r" and inj: "inj_tree m r"
    and p0: "okpath 3 p0" "present m r p0" "i0 < 512"
    and kind: "length p0 = 3 \<or> \<not> valid_table v"
    and m': "m' = m(ent_addr (tbl m r p0) i0 := v)"
  shows "okpath 3 p \<Longrightarrow> present m' r p \<Longrightarrow> present m r p \<and> tbl m' r p = tbl m r p"
proof (induction p)
  case Nil
  show ?case by simp
next
  case (Cons i p)
  from Cons.prems have ok: "okpath 3 p" "i < 512" "length p < 3" by (simp_all add: okpath_Cons)
  from Cons.prems have pr': "present m' r p" and vt: "valid_table (m' (ent_addr (tbl m' r p) i))"
    by simp_all
  from Cons.IH[OF ok(1) pr'] have pr: "present m r p" and t: "tbl m' r p = tbl m r p" by simp_all
  have ne: "ent_addr (tbl m r p) i \<noteq> ent_addr (tbl m r p0) i0"
  proof
    assume "ent_addr (tbl m r p) i = ent_addr (tbl m r p0) i0"
    then have e: "p = p0" "i = i0"
      using slot_addr_eq_iff[OF al inj ok(1) pr ok(2) p0] by simp_all
    with ok(3) kind have "\<not> valid_table v" by auto
    with vt t e show False by (simp add: m')
  qed
  then have "m' (ent_addr (tbl m r p) i) = m (ent_addr (tbl m r p) i)" by (simp add: m')
  with vt t pr show ?case by simp
qed

lemma store_frame_forth:
  assumes al: "page_aligned r" and inj: "inj_tree m r"
    and p0: "okpath 3 p0" "present m r p0" "i0 < 512"
    and old: "length p0 = 3 \<or> \<not> valid_table (m (ent_addr (tbl m r p0) i0))"
    and m': "m' = m(ent_addr (tbl m r p0) i0 := v)"
  shows "okpath 3 p \<Longrightarrow> present m r p \<Longrightarrow> present m' r p \<and> tbl m' r p = tbl m r p"
proof (induction p)
  case Nil
  show ?case by simp
next
  case (Cons i p)
  from Cons.prems have ok: "okpath 3 p" "i < 512" "length p < 3" by (simp_all add: okpath_Cons)
  from Cons.prems have pr: "present m r p" and vt: "valid_table (m (ent_addr (tbl m r p) i))"
    by simp_all
  from Cons.IH[OF ok(1) pr] have pr': "present m' r p" and t: "tbl m' r p = tbl m r p"
    by simp_all
  have ne: "ent_addr (tbl m r p) i \<noteq> ent_addr (tbl m r p0) i0"
  proof
    assume a: "ent_addr (tbl m r p) i = ent_addr (tbl m r p0) i0"
    then have e: "p = p0" "i = i0"
      using slot_addr_eq_iff[OF al inj ok(1) pr ok(2) p0] by simp_all
    with ok(3) old have "\<not> valid_table (m (ent_addr (tbl m r p0) i0))" by auto
    with vt e show False by simp
  qed
  then have "m' (ent_addr (tbl m r p) i) = m (ent_addr (tbl m r p) i)" by (simp add: m')
  with vt t pr' show ?case by simp
qed

lemma alloc_entry_same:
  assumes "alloc_step m r p0 i0 pg m'" "okpath 3 p" "present m r p" "i < 512" "(p, i) \<noteq> (p0, i0)"
  shows "m' (ent_addr (tbl m r p) i) = m (ent_addr (tbl m r p) i)"
proof -
  from assms(1) have al: "page_aligned r" and inj: "inj_tree m r"
    and p0: "okpath 3 p0" "present m r p0" "i0 < 512" and pg: "page_aligned pg"
    and fresh: "tbl m r p \<noteq> pg"
    and m': "m' = (\<lambda>a. if a - pg < PAGE_SIZE then 0 else m a)(ent_addr (tbl m r p0) i0 := table_desc pg)"
    using assms(2,3) by (auto simp: alloc_step_def good_page_def)
  have 1: "ent_addr (tbl m r p) i \<noteq> ent_addr (tbl m r p0) i0"
    using slot_addr_eq_iff[OF al inj assms(2,3,4) p0] assms(5) by simp
  have 2: "\<not> ent_addr (tbl m r p) i - pg < PAGE_SIZE"
    using memset_hit_iff[OF pg tbl_aligned[OF al] assms(4), of m p] fresh by simp
  show ?thesis using 1 2 by (simp add: m')
qed

lemma alloc_new_page_zero:
  assumes "alloc_step m r p0 i0 pg m'" "i < 512"
  shows "m' (ent_addr pg i) = 0"
proof -
  from assms(1) have al: "page_aligned r" and p0: "okpath 3 p0" "present m r p0" "i0 < 512"
    and pg: "page_aligned pg" and fresh: "tbl m r p0 \<noteq> pg"
    and m': "m' = (\<lambda>a. if a - pg < PAGE_SIZE then 0 else m a)(ent_addr (tbl m r p0) i0 := table_desc pg)"
    by (auto simp: alloc_step_def good_page_def)
  have 1: "ent_addr pg i \<noteq> ent_addr (tbl m r p0) i0"
    using ent_addr_eq_iff[OF pg tbl_aligned[OF al] assms(2) p0(3), of m p0] fresh by simp
  have 2: "ent_addr pg i - pg < PAGE_SIZE"
    using memset_hit_iff[OF pg pg assms(2)] by simp
  show ?thesis using 1 2 by (simp add: m')
qed

lemma alloc_frame_forth:
  assumes st: "alloc_step m r p0 i0 pg m'"
  shows "okpath 3 p \<Longrightarrow> present m r p \<Longrightarrow> present m' r p \<and> tbl m' r p = tbl m r p"
proof (induction p)
  case Nil
  show ?case by simp
next
  case (Cons i p)
  from Cons.prems have ok: "okpath 3 p" "i < 512" by (simp_all add: okpath_Cons)
  from Cons.prems have pr: "present m r p" and vt: "valid_table (m (ent_addr (tbl m r p) i))"
    by simp_all
  from Cons.IH[OF ok(1) pr] have pr': "present m' r p" and t: "tbl m' r p = tbl m r p"
    by simp_all
  from st vt have "(p, i) \<noteq> (p0, i0)" by (auto simp: alloc_step_def valid_table_def)
  from alloc_entry_same[OF st ok(1) pr ok(2) this] vt t pr' show ?case by simp
qed

lemma alloc_new_path:
  assumes st: "alloc_step m r p0 i0 pg m'"
  shows "present m' r (i0 # p0)" "tbl m' r (i0 # p0) = pg"
proof -
  from st have p0: "okpath 3 p0" "present m r p0" and pg: "good_page pg"
    and m': "m' = (\<lambda>a. if a - pg < PAGE_SIZE then 0 else m a)(ent_addr (tbl m r p0) i0 := table_desc pg)"
    by (auto simp: alloc_step_def)
  from alloc_frame_forth[OF st p0] have pr: "present m' r p0" and t: "tbl m' r p0 = tbl m r p0"
    by simp_all
  have e: "m' (ent_addr (tbl m r p0) i0) = table_desc pg" by (simp add: m')
  show "present m' r (i0 # p0)" using pr t e table_desc_props(2)[OF pg] by simp
  show "tbl m' r (i0 # p0) = pg" using t e table_desc_props(1)[OF pg] by simp
qed

lemma alloc_frame_back:
  assumes st: "alloc_step m r p0 i0 pg m'"
  shows "okpath 3 p \<Longrightarrow> present m' r p \<Longrightarrow> present m r p \<or> p = i0 # p0"
proof (induction p)
  case Nil
  show ?case by simp
next
  case (Cons i p)
  from Cons.prems have ok: "okpath 3 p" "i < 512" by (simp_all add: okpath_Cons)
  from Cons.prems have pr': "present m' r p" and vt: "valid_table (m' (ent_addr (tbl m' r p) i))"
    by simp_all
  from Cons.IH[OF ok(1) pr'] consider "p = i0 # p0" | "present m r p" by blast
  then show ?case
  proof cases
    case 1
    with vt alloc_new_path(2)[OF st] alloc_new_page_zero[OF st ok(2)] zero_invalid(2)
    show ?thesis by simp
  next
    case 2
    from alloc_frame_forth[OF st ok(1) 2] have t: "tbl m' r p = tbl m r p" by simp
    show ?thesis
    proof (cases "(p, i) = (p0, i0)")
      case True
      then show ?thesis by simp
    next
      case False
      from alloc_entry_same[OF st ok(1) 2 ok(2) False] vt t 2 show ?thesis by simp
    qed
  qed
qed

lemma alloc_inj_tree:
  assumes st: "alloc_step m r p0 i0 pg m'"
  shows "inj_tree m' r"
  unfolding inj_tree_def
proof (intro allI impI)
  fix p q
  assume a: "okpath 3 p \<and> okpath 3 q \<and> present m' r p \<and> present m' r q \<and> tbl m' r p = tbl m' r q"
  from st have inj: "inj_tree m r"
    and fresh: "\<And>p. okpath 3 p \<Longrightarrow> present m r p \<Longrightarrow> tbl m r p \<noteq> pg"
    by (auto simp: alloc_step_def)
  from a alloc_frame_back[OF st] have cp: "present m r p \<or> p = i0 # p0"
    and cq: "present m r q \<or> q = i0 # p0" by blast+
  show "p = q"
  proof (cases "p = i0 # p0")
    case True
    show ?thesis
    proof (cases "q = i0 # p0")
      case True
      with \<open>p = i0 # p0\<close> show ?thesis by simp
    next
      case False
      with cq have q: "present m r q" by simp
      from a alloc_frame_forth[OF st _ q] have "tbl m' r q = tbl m r q" by simp
      with a True alloc_new_path(2)[OF st] fresh[OF _ q] show ?thesis by auto
    qed
  next
    case False
    with cp have p: "present m r p" by simp
    from a alloc_frame_forth[OF st _ p] have tp: "tbl m' r p = tbl m r p" by simp
    show ?thesis
    proof (cases "q = i0 # p0")
      case True
      with a tp alloc_new_path(2)[OF st] fresh[OF _ p] show ?thesis by auto
    next
      case False
      with cq have q: "present m r q" by simp
      from a alloc_frame_forth[OF st _ q] have "tbl m' r q = tbl m r q" by simp
      with a tp p q inj show ?thesis unfolding inj_tree_def by metis
    qed
  qed
qed

lemma alloc_leaves:
  assumes st: "alloc_step m r p0 i0 pg m'"
  shows "leaves m' r \<subseteq> leaves m r"
proof
  fix x assume x: "x \<in> leaves m' r"
  obtain p i where pi: "x = (p, i)" by (cases x)
  from x pi have ok: "okpath 3 p" "i < 512" and pr': "present m' r p"
    and lf: "is_leaf (length p) (m' (ent_addr (tbl m' r p) i))"
    by (simp_all add: leaves_def)
  from st have pg: "good_page pg" and l0: "length p0 < 3"
    and m': "m' = (\<lambda>a. if a - pg < PAGE_SIZE then 0 else m a)(ent_addr (tbl m r p0) i0 := table_desc pg)"
    by (auto simp: alloc_step_def)
  from alloc_frame_back[OF st ok(1) pr'] consider "p = i0 # p0" | "present m r p" by blast
  then show "x \<in> leaves m r"
  proof cases
    case 1
    with lf alloc_new_path(2)[OF st] alloc_new_page_zero[OF st ok(2)] zero_invalid(1)
    show ?thesis by (simp add: is_leaf_def)
  next
    case 2
    from alloc_frame_forth[OF st ok(1) 2] have t: "tbl m' r p = tbl m r p" by simp
    show ?thesis
    proof (cases "(p, i) = (p0, i0)")
      case True
      then have "m' (ent_addr (tbl m' r p) i) = table_desc pg" using t by (simp add: m')
      with lf True l0 table_desc_props(2)[OF pg] show ?thesis
        by (simp add: is_leaf_def valid_table_def)
    next
      case False
      from alloc_entry_same[OF st ok(1) 2 ok(2) False] lf t 2 ok pi show ?thesis
        by (simp add: leaves_def)
    qed
  qed
qed

lemma store_back:
  assumes "store_step m r p0 i0 v m'" "okpath 3 p" "present m' r p"
  shows "present m r p" "tbl m' r p = tbl m r p"
  using assms store_frame_back[of r m p0 i0 v m' p] by (auto simp: store_step_def)

lemma store_forth:
  assumes "store_step m r p0 i0 v m'" "length p0 = 3 \<or> \<not> valid_table (m (ent_addr (tbl m r p0) i0))"
    "okpath 3 p" "present m r p"
  shows "present m' r p" "tbl m' r p = tbl m r p"
  using assms store_frame_forth[of r m p0 i0 m' v p] by (auto simp: store_step_def)

lemma store_entry_same:
  assumes st: "store_step m r p0 i0 v m'" and p: "okpath 3 p" "present m r p" "i < 512"
    and ne: "(p, i) \<noteq> (p0, i0)"
  shows "m' (ent_addr (tbl m r p) i) = m (ent_addr (tbl m r p) i)"
proof -
  from st have al: "page_aligned r" and inj: "inj_tree m r"
    and p0: "okpath 3 p0" "present m r p0" "i0 < 512"
    and m': "m' = m(ent_addr (tbl m r p0) i0 := v)"
    by (auto simp: store_step_def)
  show ?thesis using slot_addr_eq_iff[OF al inj p p0] ne by (auto simp: m')
qed

lemma store_entry_new:
  assumes st: "store_step m r p0 i0 v m'"
  shows "m' (ent_addr (tbl m r p0) i0) = v"
  using st by (simp add: store_step_def)

lemma store_inj_tree:
  assumes st: "store_step m r p0 i0 v m'"
  shows "inj_tree m' r"
proof -
  from st have inj: "inj_tree m r" by (simp add: store_step_def)
  show ?thesis
    unfolding inj_tree_def
  proof (intro allI impI)
    fix p q
    assume a: "okpath 3 p \<and> okpath 3 q \<and> present m' r p \<and> present m' r q \<and> tbl m' r p = tbl m' r q"
    then have "present m r p" "present m r q" "tbl m r p = tbl m r q"
      using store_back[OF st] by auto
    with a inj show "p = q" unfolding inj_tree_def by blast
  qed
qed

lemma store_leaves:
  assumes st: "store_step m r p0 i0 v m'"
  shows "leaves m' r \<subseteq> insert (p0, i0) (leaves m r)"
proof
  fix x assume x: "x \<in> leaves m' r"
  obtain p i where pi: "x = (p, i)" by (cases x)
  from x pi have ok: "okpath 3 p" "i < 512" and pr': "present m' r p"
    and lf: "is_leaf (length p) (m' (ent_addr (tbl m' r p) i))"
    by (simp_all add: leaves_def)
  from store_back[OF st ok(1) pr'] have pr: "present m r p" and t: "tbl m' r p = tbl m r p" .
  show "x \<in> insert (p0, i0) (leaves m r)"
  proof (cases "(p, i) = (p0, i0)")
    case True
    with pi show ?thesis by simp
  next
    case False
    from store_entry_same[OF st ok(1) pr ok(2) False] lf t pr ok pi show ?thesis
      by (simp add: leaves_def)
  qed
qed

lemma store_leaves_clear:
  assumes st: "store_step m r p0 i0 v m'" and v: "\<not> is_leaf (length p0) v"
  shows "leaves m' r \<subseteq> leaves m r - {(p0, i0)}"
proof -
  have "(p0, i0) \<notin> leaves m' r"
  proof
    assume "(p0, i0) \<in> leaves m' r"
    then have ok: "okpath 3 p0" and pr': "present m' r p0"
      and lf: "is_leaf (length p0) (m' (ent_addr (tbl m' r p0) i0))"
      by (simp_all add: leaves_def)
    from store_back(2)[OF st ok pr'] store_entry_new[OF st] lf v show False by simp
  qed
  with store_leaves[OF st] show ?thesis by blast
qed

section \<open>The invariant of a tree built from a zeroed root\<close>

lemma tree_inv_fresh:
  assumes inv: "tree_inv P s r" and pool: "pool s = pg # ps"
    and p: "okpath 3 p" "present (mem s) r p"
  shows "tbl (mem s) r p \<noteq> pg"
proof (cases p)
  case Nil
  from inv pool have "pg \<in> set P" "r \<notin> set P" by (auto simp: tree_inv_def)
  with Nil show ?thesis by auto
next
  case (Cons i q)
  from inv obtain taken where t: "P = taken @ pool s"
    "\<And>p. okpath 3 p \<Longrightarrow> p \<noteq> [] \<Longrightarrow> present (mem s) r p \<Longrightarrow> tbl (mem s) r p \<in> set taken"
    by (auto simp: tree_inv_def)
  from inv have "distinct P" by (simp add: tree_inv_def)
  with t(1) pool have "pg \<notin> set taken" by auto
  with t(2)[OF p(1) _ p(2)] Cons show ?thesis by auto
qed

lemma tree_inv_pool_good:
  assumes "tree_inv P s r" "pool s = pg # ps"
  shows "good_page pg"
  using assms by (auto simp: tree_inv_def)

lemma tree_inv_nonnull:
  assumes inv: "tree_inv P s r" and p: "okpath 3 p" "present (mem s) r p"
  shows "tbl (mem s) r p \<noteq> NULL"
proof (cases p)
  case Nil
  with inv show ?thesis by (simp add: tree_inv_def)
next
  case (Cons i q)
  from inv obtain taken where t: "P = taken @ pool s"
    "\<And>p. okpath 3 p \<Longrightarrow> p \<noteq> [] \<Longrightarrow> present (mem s) r p \<Longrightarrow> tbl (mem s) r p \<in> set taken"
    by (auto simp: tree_inv_def)
  from t(2)[OF p(1) _ p(2)] Cons have "tbl (mem s) r p \<in> set P" using t(1) by auto
  with inv have "good_page (tbl (mem s) r p)" by (simp add: tree_inv_def)
  then show ?thesis by (simp add: good_page_def)
qed

lemma tree_inv_alloc_step:
  assumes inv: "tree_inv P s r" and pool: "pool s = pg # ps"
    and p0: "okpath 3 p0" "length p0 < 3" "present (mem s) r p0" "i0 < 512"
    and e: "IS_PTE_INVALID (mem s (ent_addr (tbl (mem s) r p0) i0))"
    and m': "m' = (\<lambda>a. if a - pg < PAGE_SIZE then 0 else mem s a)
                    (ent_addr (tbl (mem s) r p0) i0 := table_desc pg)"
  shows "alloc_step (mem s) r p0 i0 pg m'"
  using inv p0 e m' tree_inv_fresh[OF inv pool] tree_inv_pool_good[OF inv pool]
  by (auto simp: alloc_step_def tree_inv_def)

lemma tree_inv_alloc:
  assumes inv: "tree_inv P s r" and pool: "pool s = pg # ps"
    and st: "alloc_step (mem s) r p0 i0 pg m'"
  shows "tree_inv P (s\<lparr>pool := ps, mem := m'\<rparr>) r"
proof -
  from inv obtain taken where t: "P = taken @ pool s"
    "\<And>p. okpath 3 p \<Longrightarrow> p \<noteq> [] \<Longrightarrow> present (mem s) r p \<Longrightarrow> tbl (mem s) r p \<in> set taken"
    by (auto simp: tree_inv_def)
  have 1: "P = (taken @ [pg]) @ ps" using t(1) pool by simp
  have 2: "tbl m' r p \<in> set (taken @ [pg])" if "okpath 3 p" "p \<noteq> []" "present m' r p" for p
  proof -
    from alloc_frame_back[OF st that(1,3)] consider "p = i0 # p0" | "present (mem s) r p" by blast
    then show ?thesis
    proof cases
      case 1
      then show ?thesis using alloc_new_path(2)[OF st] by simp
    next
      case 2
      from alloc_frame_forth[OF st that(1) 2] t(2)[OF that(1,2) 2] show ?thesis by simp
    qed
  qed
  from inv have base: "page_aligned r" "r \<noteq> NULL" "r \<notin> set P" "distinct P" "\<forall>p\<in>set P. good_page p"
    by (simp_all add: tree_inv_def)
  show ?thesis
    unfolding tree_inv_def using base alloc_inj_tree[OF st] 1 2
    by (intro conjI; simp)
qed

lemma tree_inv_store:
  assumes inv: "tree_inv P s r" and st: "store_step (mem s) r p0 i0 v m'"
  shows "tree_inv P (s\<lparr>mem := m'\<rparr>) r"
proof -
  from inv obtain taken where t: "P = taken @ pool s"
    "\<And>p. okpath 3 p \<Longrightarrow> p \<noteq> [] \<Longrightarrow> present (mem s) r p \<Longrightarrow> tbl (mem s) r p \<in> set taken"
    by (auto simp: tree_inv_def)
  have 2: "tbl m' r p \<in> set taken" if "okpath 3 p" "p \<noteq> []" "present m' r p" for p
    using store_back[OF st that(1,3)] t(2)[OF that(1,2)] by simp
  from inv have base: "page_aligned r" "r \<noteq> NULL" "r \<notin> set P" "distinct P" "\<forall>p\<in>set P. good_page p"
    by (simp_all add: tree_inv_def)
  show ?thesis
    unfolding tree_inv_def using base store_inj_tree[OF st] t(1) 2
    by (intro conjI; simp)
qed

lemma tree_inv_store_step:
  assumes inv: "tree_inv P s r" and p0: "okpath 3 p0" "present (mem s) r p0" "i0 < 512"
    and kind: "length p0 = 3 \<or> \<not> valid_table v"
  shows "store_step (mem s) r p0 i0 v ((mem s)(ent_addr (tbl (mem s) r p0) i0 := v))"
  using assms by (simp add: store_step_def tree_inv_def)

lemma grows_refl: "tree_inv P s r \<Longrightarrow> grows P r s s"
  by (simp add: grows_def)

lemma grows_trans:
  assumes "grows P r s s1" "grows P r s1 s2"
  shows "grows P r s s2"
  unfolding grows_def
proof (intro conjI allI impI)
  show "tree_inv P s2 r" using assms(2) by (simp add: grows_def)
  show "leaves (mem s2) r \<subseteq> leaves (mem s) r" using assms by (auto simp: grows_def)
  show "freed s2 = freed s" using assms by (simp add: grows_def)
next
  fix p assume p: "okpath 3 p \<and> present (mem s) r p"
  with assms(1) have 1: "present (mem s1) r p" "tbl (mem s1) r p = tbl (mem s) r p"
    by (simp_all add: grows_def)
  with p assms(2) have 2: "present (mem s2) r p" "tbl (mem s2) r p = tbl (mem s1) r p"
    by (simp_all add: grows_def)
  from 1 2 show "present (mem s2) r p" "tbl (mem s2) r p = tbl (mem s) r p" by simp_all
next
  fix p i
  assume a: "okpath 3 p \<and> present (mem s) r p \<and> i < 512 \<and>
             \<not> IS_PTE_INVALID (mem s (ent_addr (tbl (mem s) r p) i))"
  with assms(1) have 1: "present (mem s1) r p" "tbl (mem s1) r p = tbl (mem s) r p"
    "mem s1 (ent_addr (tbl (mem s) r p) i) = mem s (ent_addr (tbl (mem s) r p) i)"
    by (simp_all add: grows_def)
  with a assms(2) have "mem s2 (ent_addr (tbl (mem s1) r p) i) = mem s1 (ent_addr (tbl (mem s1) r p) i)"
    unfolding grows_def by (metis (no_types, lifting))
  with 1 show "mem s2 (ent_addr (tbl (mem s) r p) i) = mem s (ent_addr (tbl (mem s) r p) i)"
    by simp
qed

lemma get_next_ptp_alloc_cases:
  assumes "cur \<noteq> NULL" "level \<le> 3" "get_next_ptp s cur level va True = Inr (res, s')"
  shows "(\<not> IS_PTE_INVALID (mem s (ent_addr cur (level_index level va))) \<and> s' = s \<or>
          IS_PTE_INVALID (mem s (ent_addr cur (level_index level va))) \<and>
          (\<exists>pg ps. pool s = pg # ps \<and>
             s' = s\<lparr>pool := ps,
                    mem := (\<lambda>a. if a - pg < PAGE_SIZE then 0 else mem s a)
                             (ent_addr cur (level_index level va) := table_desc pg)\<rparr>)) \<and>
         res = (if IS_PTE_TABLE (mem s' (ent_addr cur (level_index level va)))
                then NORMAL_PTP (GET_NEXT_PTP (mem s' (ent_addr cur (level_index level va))))
                       (ent_addr cur (level_index level va))
                else BLOCK_PTP (GET_NEXT_PTP (mem s' (ent_addr cur (level_index level va))))
                       (ent_addr cur (level_index level va)))"
proof (cases "IS_PTE_INVALID (mem s (ent_addr cur (level_index level va)))")
  case False
  with assms show ?thesis
    by (auto simp: get_next_ptp_def ptp_result_def Let_def split: if_splits)
next
  case True
  show ?thesis
  proof (cases "pool s")
    case Nil
    with True assms show ?thesis
      by (simp add: get_next_ptp_def get_pages_def Let_def)
  next
    case (Cons pg ps)
    with True assms show ?thesis
      by (auto simp: get_next_ptp_def get_pages_def ptp_result_def Let_def memset_page_def
          table_desc_def split: if_splits cong: if_cong)
  qed
qed

lemma grows_alloc:
  assumes inv: "tree_inv P s r" and pool: "pool s = pg # ps"
    and st: "alloc_step (mem s) r p0 i0 pg m'"
  shows "grows P r s (s\<lparr>pool := ps, mem := m'\<rparr>)"
  unfolding grows_def
proof (intro conjI allI impI)
  show "tree_inv P (s\<lparr>pool := ps, mem := m'\<rparr>) r" by (rule tree_inv_alloc[OF inv pool st])
  show "leaves (mem (s\<lparr>pool := ps, mem := m'\<rparr>)) r \<subseteq> leaves (mem s) r"
    using alloc_leaves[OF st] by simp
  show "freed (s\<lparr>pool := ps, mem := m'\<rparr>) = freed s" by simp
next
  fix p assume p: "okpath 3 p \<and> present (mem s) r p"
  then show "present (mem (s\<lparr>pool := ps, mem := m'\<rparr>)) r p"
    "tbl (mem (s\<lparr>pool := ps, mem := m'\<rparr>)) r p = tbl (mem s) r p"
    using alloc_frame_forth[OF st, of p] by simp_all
next
  fix p i
  assume a: "okpath 3 p \<and> present (mem s) r p \<and> i < 512 \<and>
             \<not> IS_PTE_INVALID (mem s (ent_addr (tbl (mem s) r p) i))"
  from st have "IS_PTE_INVALID (mem s (ent_addr (tbl (mem s) r p0) i0))"
    by (simp add: alloc_step_def)
  with a have "(p, i) \<noteq> (p0, i0)" by auto
  with a alloc_entry_same[OF st, of p i]
  show "mem (s\<lparr>pool := ps, mem := m'\<rparr>) (ent_addr (tbl (mem s) r p) i) =
        mem s (ent_addr (tbl (mem s) r p) i)" by simp
qed

lemma get_next_ptp_alloc_tree:
  assumes inv: "tree_inv P s r"
    and p0: "okpath 3 p0" "length p0 < 3" "present (mem s) r p0"
    and nl: "(p0, level_index (length p0) va) \<notin> leaves (mem s) r"
    and call: "get_next_ptp s (tbl (mem s) r p0) (length p0) va True = Inr (res, s')"
  shows "res = NORMAL_PTP (tbl (mem s') r (level_index (length p0) va # p0))
                 (ent_addr (tbl (mem s) r p0) (level_index (length p0) va))"
    and "present (mem s') r (level_index (length p0) va # p0)"
    and "grows P r s s'"
    and "\<forall>p. okpath 3 p \<and> present (mem s') r p
             \<longrightarrow> present (mem s) r p \<or> length p = Suc (length p0)"
proof -
  let ?i = "level_index (length p0) va"
  let ?a = "ent_addr (tbl (mem s) r p0) ?i"
  have i: "?i < 512" using level_index_less[of "length p0" va] by (simp add: PTP_ENTRIES_def)
  have nn: "tbl (mem s) r p0 \<noteq> NULL" by (rule tree_inv_nonnull[OF inv p0(1,3)])
  from p0(2) have l3: "length p0 \<le> 3" by simp
  note cs = get_next_ptp_alloc_cases[OF nn l3 call]
  have goal: "res = NORMAL_PTP (tbl (mem s') r (?i # p0)) ?a \<and> present (mem s') r (?i # p0)
              \<and> grows P r s s' \<and>
              (\<forall>p. okpath 3 p \<and> present (mem s') r p
                   \<longrightarrow> present (mem s) r p \<or> length p = Suc (length p0))"
  proof (cases "IS_PTE_INVALID (mem s ?a)")
    case False
    with cs have s': "s' = s" by auto
    from nl p0 i False have "IS_PTE_TABLE (mem s ?a)"
      by (auto simp: leaves_def is_leaf_def)
    with False cs s' p0(3) grows_refl[OF inv] show ?thesis
      by (simp add: valid_table_def)
  next
    case True
    with cs obtain pg ps where pool: "pool s = pg # ps"
      and s': "s' = s\<lparr>pool := ps, mem := (\<lambda>a. if a - pg < PAGE_SIZE then 0 else mem s a)
                                           (?a := table_desc pg)\<rparr>"
      by auto
    define m' where "m' = (\<lambda>a. if a - pg < PAGE_SIZE then 0 else mem s a)(?a := table_desc pg)"
    have st: "alloc_step (mem s) r p0 ?i pg m'"
      by (rule tree_inv_alloc_step[OF inv pool p0(1,2,3) i True m'_def])
    from s' have ms': "mem s' = m'" by (simp add: m'_def)
    have e: "mem s' ?a = table_desc pg" by (simp add: ms' m'_def)
    have pg: "good_page pg" by (rule tree_inv_pool_good[OF inv pool])
    from cs e table_desc_props[OF pg] have "res = NORMAL_PTP pg ?a"
      by (simp add: valid_table_def)
    moreover have "grows P r s s'"
      using grows_alloc[OF inv pool st] s' by (simp add: m'_def)
    moreover have "\<forall>p. okpath 3 p \<and> present (mem s') r p
                     \<longrightarrow> present (mem s) r p \<or> length p = Suc (length p0)"
    proof (intro allI impI)
      fix p assume "okpath 3 p \<and> present (mem s') r p"
      then have "present (mem s) r p \<or> p = ?i # p0"
        using alloc_frame_back[OF st, of p] ms' by simp
      then show "present (mem s) r p \<or> length p = Suc (length p0)" by auto
    qed
    ultimately show ?thesis using alloc_new_path[OF st] ms' by simp
  qed
  from goal show "res = NORMAL_PTP (tbl (mem s') r (?i # p0)) ?a" by simp
  from goal show "present (mem s') r (?i # p0)" by simp
  from goal show "grows P r s s'" by simp
  from goal show "\<forall>p. okpath 3 p \<and> present (mem s') r p
                     \<longrightarrow> present (mem s) r p \<or> length p = Suc (length p0)" by simp
qed

lemma length_vpath [simp]: "length (vpath l va) = l"
  by (induction l) simp_all

lemma okpath_vpath: "l \<le> 3 \<Longrightarrow> okpath 3 (vpath l va)"
proof (induction l)
  case 0
  show ?case by simp
next
  case (Suc l)
  then show ?case
    using level_index_less[of l va] by (simp add: okpath_Cons PTP_ENTRIES_def)
qed

lemma walk_alloc_path:
  assumes "tree_inv P s r" "L \<le> 3" "l \<le> L" "present (mem s) r (vpath l va)"
    and "\<forall>l'. l \<le> l' \<and> l' < L \<longrightarrow> (vpath l' va, level_index l' va) \<notin> leaves (mem s) r"
    and "walk_alloc s (tbl (mem s) r (vpath l va)) [l..<L] va = Inr (cur, s')"
  shows "cur = tbl (mem s') r (vpath L va) \<and> present (mem s') r (vpath L va) \<and> grows P r s s' \<and>
         (\<forall>p. okpath 3 p \<and> present (mem s') r p \<longrightarrow> present (mem s) r p \<or> length p \<le> L)"
  using assms
proof (induction "L - l" arbitrary: l s)
  case 0
  then have "l = L" by simp
  with 0 show ?case by (auto simp: grows_refl)
next
  case (Suc n)
  then have lt: "l < L" by simp
  then have up: "[l..<L] = l # [Suc l..<L]" by (simp add: upt_conv_Cons)
  have ok: "okpath 3 (vpath l va)" using lt Suc.prems(2) by (simp add: okpath_vpath)
  have l3: "length (vpath l va) < 3" using lt Suc.prems(2) by simp
  from Suc.prems(6) up obtain res s1 where
    call: "get_next_ptp s (tbl (mem s) r (vpath l va)) l va True = Inr (res, s1)"
    and rest: "walk_alloc s1 (next_ptp_of res (tbl (mem s) r (vpath l va))) [Suc l..<L] va = Inr (cur, s')"
    by (auto split: sum.splits)
  have nl: "(vpath l va, level_index (length (vpath l va)) va) \<notin> leaves (mem s) r"
    using Suc.prems(5) lt by simp
  from call have call': "get_next_ptp s (tbl (mem s) r (vpath l va)) (length (vpath l va)) va True
                         = Inr (res, s1)" by simp
  note g = get_next_ptp_alloc_tree[OF Suc.prems(1) ok l3 Suc.prems(4) nl call']
  from g(1) have nx: "next_ptp_of res (tbl (mem s) r (vpath l va)) = tbl (mem s1) r (vpath (Suc l) va)"
    by simp
  from g(2) have pr1: "present (mem s1) r (vpath (Suc l) va)" by simp
  from g(3) have inv1: "tree_inv P s1 r" and sub: "leaves (mem s1) r \<subseteq> leaves (mem s) r"
    by (simp_all add: grows_def)
  have safe1: "\<forall>l'. Suc l \<le> l' \<and> l' < L \<longrightarrow> (vpath l' va, level_index l' va) \<notin> leaves (mem s1) r"
    using Suc.prems(5) sub by auto
  have n: "n = L - Suc l" using Suc.hyps(2) by simp
  from rest nx have rest': "walk_alloc s1 (tbl (mem s1) r (vpath (Suc l) va)) [Suc l..<L] va = Inr (cur, s')"
    by simp
  from Suc.hyps(1)[OF n inv1 Suc.prems(2) _ pr1 safe1 rest'] lt
  have ih: "cur = tbl (mem s') r (vpath L va) \<and> present (mem s') r (vpath L va) \<and> grows P r s1 s' \<and>
        (\<forall>p. okpath 3 p \<and> present (mem s') r p \<longrightarrow> present (mem s1) r p \<or> length p \<le> L)"
    by simp
  have "\<forall>p. okpath 3 p \<and> present (mem s') r p \<longrightarrow> present (mem s) r p \<or> length p \<le> L"
  proof (intro allI impI)
    fix p assume p: "okpath 3 p \<and> present (mem s') r p"
    with ih have "present (mem s1) r p \<or> length p \<le> L" by blast
    with g(4) p lt show "present (mem s) r p \<or> length p \<le> L" by auto
  qed
  with ih grows_trans[OF g(3)] show ?case by blast
qed

lemma unat_index_mask: "unat (drop_bit n (va :: u64) AND PTP_INDEX_MASK) = (unat va div 2 ^ n) mod 512"
proof -
  have "PTP_INDEX_MASK = mask 9" by (simp add: PTP_INDEX_MASK_def mask_eq_exp_minus_1)
  then have "drop_bit n va AND PTP_INDEX_MASK = take_bit 9 (drop_bit n va)"
    by (simp only: take_bit_eq_mask)
  then have "unat (drop_bit n va AND PTP_INDEX_MASK) = take_bit 9 (drop_bit n (unat va))"
    by (simp only: unsigned_take_bit_eq unat_drop_bit_eq)
  also have "\<dots> = (unat va div 2 ^ n) mod 512"
    by (simp add: take_bit_eq_mod drop_bit_eq_div)
  finally show ?thesis .
qed

lemma level_index_nat:
  "l \<le> 3 \<Longrightarrow> level_index l va = (unat va div 2 ^ level_shift l) mod 512"
  by (cases "l = 0"; cases "l = 1"; cases "l = 2"; cases "l = 3")
     (simp_all add: level_index_def GET_L0_INDEX_def GET_L1_INDEX_def GET_L2_INDEX_def
       GET_L3_INDEX_def unat_index_mask level_shift_def L0_INDEX_SHIFT_def L1_INDEX_SHIFT_def
       L2_INDEX_SHIFT_def L3_INDEX_SHIFT_def PAGE_ORDER_def PAGE_SHIFT_def)

lemma succ_div_same:
  fixes q :: nat
  assumes "q mod 512 < 511" "0 < k"
  shows "(q + 1) div 512 ^ k = q div 512 ^ k"
proof -
  from assms(2) obtain k' where k: "k = Suc k'" by (cases k) auto
  have "(q mod 512 + 1 + q div 512 * 512) div 512 = q div 512 + (q mod 512 + 1) div 512"
    by (rule div_mult_self1) simp
  moreover have "q mod 512 + 1 + q div 512 * 512 = q + 1" by simp
  ultimately have "(q + 1) div 512 = q div 512" using assms(1) by simp
  then have "((q + 1) div 512) div 512 ^ k' = (q div 512) div 512 ^ k'" by simp
  then show ?thesis unfolding k by (simp add: div_mult2_eq)
qed

lemma unit_no_wrap:
  fixes n :: nat
  assumes n: "n < 2 ^ sh * (512 * c)" and c: "0 < c" and q: "(n div 2 ^ sh) mod 512 < 511"
  shows "n + 2 ^ sh < 2 ^ sh * (512 * c)"
proof -
  define a :: nat where "a = 2 ^ sh"
  define q where "q = n div a"
  define m where "m = n mod a"
  have a0: "0 < a" by (simp add: a_def)
  from n have ql: "q < 512 * c"
    unfolding q_def a_def by (simp add: less_mult_imp_div_less mult.commute)
  from q have qm: "q mod 512 < 511" unfolding q_def a_def .
  have "(512 * c - 1) mod 512 = (511::nat)"
  proof -
    from c obtain c' where "c = Suc c'" by (cases c) auto
    then have "512 * c - 1 = 511 + c' * 512" by simp
    then show ?thesis by (simp only: mod_mult_self1) simp
  qed
  with qm have "q \<noteq> 512 * c - 1" by auto
  with ql have "q + 1 < 512 * c" by simp
  then have "q + 2 \<le> 512 * c" by simp
  then have "(q + 2) * a \<le> (512 * c) * a" by (rule mult_le_mono1)
  then have le: "q * a + a + a \<le> a * (512 * c)" by (simp add: algebra_simps)
  have nqm: "n = q * a + m" unfolding q_def m_def by simp
  have "m < a" unfolding m_def using a0 by simp
  with nqm le have "n + a < a * (512 * c)" by linarith
  then show ?thesis by (simp add: a_def)
qed

lemma unat_exp_u64: "n < 64 \<Longrightarrow> unat (2 ^ n :: u64) = 2 ^ n"
proof -
  assume n: "n < 64"
  have "(2 ^ n :: u64) = of_nat (2 ^ n)" by simp
  then have "unat (2 ^ n :: u64) = (2 ^ n) mod 2 ^ 64" by (simp only: unat_of_nat) simp
  also have "\<dots> = 2 ^ n"
    using n power_strict_increasing[of n 64 "2::nat"] by simp
  finally show ?thesis .
qed

lemma level_shift_split: "l \<le> L \<Longrightarrow> L \<le> 3 \<Longrightarrow> level_shift l = level_shift L + 9 * (L - l)"
  by (simp add: level_shift_def)

lemma unat_add_unit:
  fixes va :: u64
  assumes L: "1 \<le> L" "L \<le> 3" and q: "level_index L va < 511"
  shows "unat (va + 2 ^ level_shift L) = unat va + 2 ^ level_shift L"
proof -
  let ?sh = "level_shift L"
  have sh: "?sh \<le> 30" using L by (simp add: level_shift_def)
  have lt: "unat va < 2 ^ 64" using unsigned_less[of va, where 'a = nat] by simp
  have "(2::nat) ^ 64 = 2 ^ ?sh * (2 ^ 9 * 2 ^ (55 - ?sh))"
    using sh by (simp flip: power_add)
  then have p: "(2::nat) ^ 64 = 2 ^ ?sh * (512 * 2 ^ (55 - ?sh))" by simp
  have q': "(unat va div 2 ^ ?sh) mod 512 < 511" using q L by (simp add: level_index_nat)
  have "unat va + 2 ^ ?sh < 2 ^ ?sh * (512 * 2 ^ (55 - ?sh))"
    by (rule unit_no_wrap) (use lt p q' in simp_all)
  then have "unat va + 2 ^ ?sh < 2 ^ 64" using p by simp
  moreover have "unat (2 ^ ?sh :: u64) = 2 ^ ?sh" using sh by (simp add: unat_exp_u64)
  ultimately show ?thesis using unat_add_lem[of va "2 ^ ?sh"] by simp
qed

lemma index_step:
  assumes L: "1 \<le> L" "L \<le> 3" and l: "l \<le> L" and q: "level_index L va < 511"
  shows "level_index l (va + 2 ^ level_shift L) =
         (if l = L then level_index L va + 1 else level_index l va)"
proof -
  let ?sh = "level_shift L"
  let ?q = "unat va div 2 ^ ?sh"
  have q': "?q mod 512 < 511" using q L by (simp add: level_index_nat)
  have l3: "l \<le> 3" using l L by simp
  have split: "\<And>n::nat. n div 2 ^ level_shift l = (n div 2 ^ ?sh) div 512 ^ (L - l)"
  proof -
    fix n :: nat
    have "(2::nat) ^ level_shift l = 2 ^ ?sh * 2 ^ (9 * (L - l))"
      using level_shift_split[OF l L(2)] by (simp add: power_add)
    also have "(2::nat) ^ (9 * (L - l)) = 512 ^ (L - l)" by (simp add: power_mult)
    finally show "n div 2 ^ level_shift l = (n div 2 ^ ?sh) div 512 ^ (L - l)"
      by (simp add: div_mult2_eq)
  qed
  have "level_index l (va + 2 ^ ?sh) = ((unat va + 2 ^ ?sh) div 2 ^ level_shift l) mod 512"
    using l3 by (simp add: level_index_nat unat_add_unit[OF L q])
  also have "\<dots> = (((unat va + 2 ^ ?sh) div 2 ^ ?sh) div 512 ^ (L - l)) mod 512"
    by (simp only: split)
  also have "(unat va + 2 ^ ?sh) div 2 ^ ?sh = ?q + 1"
    using div_add_self2[of "2 ^ ?sh" "unat va"] by simp
  finally have step: "level_index l (va + 2 ^ ?sh) = ((?q + 1) div 512 ^ (L - l)) mod 512" .
  show ?thesis
  proof (cases "l = L")
    case True
    from q' have "(?q + 1) mod 512 = ?q mod 512 + 1" by (simp add: mod_Suc)
    with True step L show ?thesis by (simp add: level_index_nat)
  next
    case False
    with l have "0 < L - l" by simp
    from succ_div_same[OF q' this] step False l3 show ?thesis
      by (simp add: level_index_nat split)
  qed
qed

lemma vpath_step:
  assumes L: "1 \<le> L" "L \<le> 3" and q: "level_index L va < 511"
  shows "l \<le> L \<Longrightarrow> vpath l (va + 2 ^ level_shift L) = vpath l va"
proof (induction l)
  case 0
  show ?case by simp
next
  case (Suc l)
  then have "l \<le> L" "l \<noteq> L" by simp_all
  with index_step[OF L _ q, of l] Suc show ?case by simp
qed

lemma of_nat_u64_eq_0: "x < 2 ^ 64 \<Longrightarrow> ((of_nat x :: u64) = 0) = (x = 0)"
proof -
  assume "x < 2 ^ 64"
  then have "unat (of_nat x :: u64) = x" by (simp add: unat_of_nat)
  then show ?thesis by (metis unat_0 unsigned_eq_0_iff)
qed

lemma index_lt: "level_index L va < 512"
  using level_index_less[of L va] by (simp add: PTP_ENTRIES_def)

lemma map_inv_store:
  assumes L: "1 \<le> L" "L \<le> 3"
    and lv: "\<not> IS_PTE_INVALID (lv (pa0 + of_nat k * psz))"
      "L < 3 \<Longrightarrow> \<not> IS_PTE_TABLE (lv (pa0 + of_nat k * psz))"
    and D: "D \<Longrightarrow> inj_on (\<lambda>j. slot L (va0 + of_nat j * psz)) {..<N}"
    and inv: "map_inv P r L va0 pa0 psz lv B D k s" and k: "k < N"
    and pr: "present (mem s) r (vpath L (va0 + of_nat k * psz))"
  shows "map_inv P r L va0 pa0 psz lv B D (Suc k)
           (write_pte (tbl (mem s) r (vpath L (va0 + of_nat k * psz)))
              (level_index L (va0 + of_nat k * psz)) (lv (pa0 + of_nat k * psz)) s)"
proof -
  let ?va = "\<lambda>j. va0 + of_nat j * psz"
  let ?p0 = "vpath L (?va k)" and ?i0 = "level_index L (?va k)" and ?v = "lv (pa0 + of_nat k * psz)"
  let ?m = "mem s"
  define m' where "m' = ?m(ent_addr (tbl ?m r ?p0) ?i0 := ?v)"
  have s1: "write_pte (tbl ?m r ?p0) ?i0 ?v s = s\<lparr>mem := m'\<rparr>"
    by (simp add: write_pte_def m'_def)
  from inv have tinv: "tree_inv P s r"
    and depth: "\<And>p. okpath 3 p \<Longrightarrow> present ?m r p \<Longrightarrow> length p \<le> L"
    and lvs: "leaves ?m r \<subseteq> B \<union> (\<lambda>j. slot L (?va j)) ` {..<k}"
    and prs: "\<And>j. j < k \<Longrightarrow> present ?m r (vpath L (?va j))"
    and vals: "\<And>j. D \<Longrightarrow> j < k \<Longrightarrow> ?m (slot_addr ?m r L (?va j)) = lv (pa0 + of_nat j * psz)"
    and bl: "B \<subseteq> leaves ?m r"
    by (simp_all add: map_inv_def)
  have ok0: "okpath 3 ?p0" using L by (simp add: okpath_vpath)
  have i0: "?i0 < 512" by (rule index_lt)
  have kind: "length ?p0 = 3 \<or> \<not> valid_table ?v"
    using lv(2) L by (cases "L = 3") (simp_all add: valid_table_def)
  have st: "store_step ?m r ?p0 ?i0 ?v m'"
    unfolding m'_def by (rule tree_inv_store_step[OF tinv ok0 pr i0 kind])
  have old: "length ?p0 = 3 \<or> \<not> valid_table (?m (ent_addr (tbl ?m r ?p0) ?i0))"
  proof (cases "L = 3")
    case True
    then show ?thesis by simp
  next
    case False
    have "\<not> valid_table (?m (ent_addr (tbl ?m r ?p0) ?i0))"
    proof
      assume "valid_table (?m (ent_addr (tbl ?m r ?p0) ?i0))"
      with pr have "present ?m r (?i0 # ?p0)" by simp
      moreover have "okpath 3 (?i0 # ?p0)" using ok0 i0 L False by (simp add: okpath_Cons)
      ultimately have "length (?i0 # ?p0) \<le> L" by (rule depth[rotated])
      then show False by simp
    qed
    then show ?thesis by simp
  qed
  have fwd: "present m' r p \<and> tbl m' r p = tbl ?m r p" if "okpath 3 p" "present ?m r p" for p
    using store_forth[OF st old that] by simp
  have 1: "tree_inv P (s\<lparr>mem := m'\<rparr>) r" by (rule tree_inv_store[OF tinv st])
  have 2: "length p \<le> L" if "okpath 3 p" "present m' r p" for p
    using store_back(1)[OF st that] depth[OF that(1)] by simp
  have 3: "leaves m' r \<subseteq> B \<union> (\<lambda>j. slot L (?va j)) ` {..<Suc k}"
  proof -
    have "(?p0, ?i0) = slot L (?va k)" by (simp add: slot_def)
    then have "(?p0, ?i0) \<in> (\<lambda>j. slot L (?va j)) ` {..<Suc k}" by blast
    moreover have "(\<lambda>j. slot L (?va j)) ` {..<k} \<subseteq> (\<lambda>j. slot L (?va j)) ` {..<Suc k}" by auto
    ultimately show ?thesis using store_leaves[OF st] lvs by blast
  qed
  have okj: "okpath 3 (vpath L (?va j))" for j using L by (simp add: okpath_vpath)
  have 4: "present m' r (vpath L (?va j))" if "j < Suc k" for j
  proof (cases "j = k")
    case True
    with fwd[OF ok0 pr] show ?thesis by simp
  next
    case False
    with that have "j < k" by simp
    from fwd[OF okj prs[OF this]] show ?thesis by simp
  qed
  have 5: "m' (slot_addr m' r L (?va j)) = lv (pa0 + of_nat j * psz)" if d: "D" and j: "j < Suc k" for j
  proof (cases "j = k")
    case True
    with fwd[OF ok0 pr] store_entry_new[OF st] show ?thesis by (simp add: slot_addr_def)
  next
    case False
    with j have jk: "j < k" by simp
    with k have "j \<in> {..<N}" "k \<in> {..<N}" by simp_all
    with D[OF d] False have "slot L (?va j) \<noteq> slot L (?va k)" by (auto dest: inj_onD)
    then have ne: "(vpath L (?va j), level_index L (?va j)) \<noteq> (?p0, ?i0)" by (simp add: slot_def)
    from store_entry_same[OF st okj prs[OF jk] index_lt ne] fwd[OF okj prs[OF jk]] vals[OF d jk]
    show ?thesis by (simp add: slot_addr_def)
  qed
  have lf: "is_leaf (length ?p0) ?v"
    using lv L by (cases "L = 3") (simp_all add: is_leaf_def)
  have 6: "B \<subseteq> leaves m' r"
  proof
    fix x assume "x \<in> B"
    with bl have x: "x \<in> leaves ?m r" by blast
    obtain p i where pi: "x = (p, i)" by (cases x)
    from x pi have ok: "okpath 3 p" "i < 512" and prp: "present ?m r p"
      and l: "is_leaf (length p) (?m (ent_addr (tbl ?m r p) i))"
      by (simp_all add: leaves_def)
    note f = fwd[OF ok(1) prp]
    show "x \<in> leaves m' r"
    proof (cases "(p, i) = (?p0, ?i0)")
      case True
      with store_entry_new[OF st] f lf ok show ?thesis by (simp add: leaves_def pi)
    next
      case False
      from store_entry_same[OF st ok(1) prp ok(2) False] f l ok show ?thesis
        by (simp add: leaves_def pi)
    qed
  qed
  show ?thesis unfolding s1 map_inv_def using 1 2 3 4 5 6 by simp
qed

lemma unit_Suc: "(a::u64) + of_nat (Suc k) * psz = a + of_nat k * psz + psz"
  by (simp add: algebra_simps)

lemma of_nat_diff_Suc: "k < N \<Longrightarrow> (of_nat (N - k) :: u64) - 1 = of_nat (N - Suc k)"
proof -
  assume "k < N"
  then have "N - k = Suc (N - Suc k)" by simp
  then show ?thesis by (simp only: of_nat_Suc) simp
qed

lemma fill_ptes_done:
  "512 \<le> i \<Longrightarrow> fill_ptes mk psz flags s ptp i va pa pn = Inr (s, va, pa, pn)"
  by (subst fill_ptes.simps) (simp add: PTP_ENTRIES_def)

lemma fill_ptes_step:
  "i < 512 \<Longrightarrow> set_pte_flags (mk pa) flags USER_PTE = Inr v \<Longrightarrow>
   fill_ptes mk psz flags s ptp i va pa pn =
     (if pn - 1 = 0 then Inr (write_pte ptp i v s, va + psz, pa + psz, pn - 1)
      else fill_ptes mk psz flags (write_pte ptp i v s) ptp (i + 1) (va + psz) (pa + psz) (pn - 1))"
  by (subst fill_ptes.simps) (simp add: PTP_ENTRIES_def)

lemma fill_ptes_inv:
  assumes L: "1 \<le> L" "L \<le> 3" and psz: "psz = 2 ^ level_shift L"
    and lv: "\<And>pa. set_pte_flags (mk pa) flags USER_PTE = Inr (lv pa)"
      "\<And>pa. \<not> IS_PTE_INVALID (lv pa)" "\<And>pa. L < 3 \<Longrightarrow> \<not> IS_PTE_TABLE (lv pa)"
    and N: "N < 2 ^ 64"
    and D: "D \<Longrightarrow> inj_on (\<lambda>j. slot L (va0 + of_nat j * psz)) {..<N}"
  shows "map_inv P r L va0 pa0 psz lv B D k s \<Longrightarrow> k < N \<Longrightarrow> i \<le> 512 \<Longrightarrow>
     (i < 512 \<Longrightarrow> present (mem s) r (vpath L (va0 + of_nat k * psz)) \<and>
                ptp = tbl (mem s) r (vpath L (va0 + of_nat k * psz)) \<and>
                i = level_index L (va0 + of_nat k * psz)) \<Longrightarrow>
     fill_ptes mk psz flags s ptp i (va0 + of_nat k * psz) (pa0 + of_nat k * psz)
       (of_nat (N - k)) = Inr (s', va', pa', pn') \<Longrightarrow>
     \<exists>k'. k \<le> k' \<and> (i < 512 \<longrightarrow> k < k') \<and> k' \<le> N \<and>
          map_inv P r L va0 pa0 psz lv B D k' s' \<and>
          va' = va0 + of_nat k' * psz \<and> pa' = pa0 + of_nat k' * psz \<and>
          pn' = of_nat (N - k') \<and> pool s' = pool s \<and> freed s' = freed s"
proof (induction "512 - i" arbitrary: i k s)
  case 0
  then have i: "i = 512" by simp
  with "0.prems"(5) have "s' = s" "va' = va0 + of_nat k * psz" "pa' = pa0 + of_nat k * psz"
    "pn' = of_nat (N - k)"
    by (simp_all add: fill_ptes_done)
  with "0.prems"(1,2) i show ?case by (intro exI[of _ k]) simp
next
  case (Suc n)
  let ?vak = "va0 + of_nat k * psz" and ?pak = "pa0 + of_nat k * psz"
  from Suc.hyps(2) have i: "i < 512" by simp
  from Suc.prems(4)[OF i] have pr: "present (mem s) r (vpath L ?vak)"
    and ptp: "ptp = tbl (mem s) r (vpath L ?vak)" and ii: "i = level_index L ?vak" by simp_all
  define s1 where "s1 = write_pte ptp i (lv ?pak) s"
  have inv1: "map_inv P r L va0 pa0 psz lv B D (Suc k) s1"
    unfolding s1_def ptp ii
    by (rule map_inv_store[OF L lv(2) lv(3) D Suc.prems(1,2) pr])
  have ps1: "pool s1 = pool s" "freed s1 = freed s" by (simp_all add: s1_def write_pte_def)
  note step = fill_ptes_step[where mk = mk and pa = "?pak" and flags = flags and v = "lv ?pak"
      and i = i and psz = psz and s = s and ptp = ptp and va = "?vak" and pn = "of_nat (N - k)",
      OF i lv(1)]
  have dec: "(of_nat (N - k) :: u64) - 1 = of_nat (N - Suc k)"
    by (rule of_nat_diff_Suc[OF Suc.prems(2)])
  have z: "((of_nat (N - Suc k) :: u64) = 0) = (Suc k = N)"
    using of_nat_u64_eq_0[of "N - Suc k"] N Suc.prems(2) by auto
  have eq: "(if (of_nat (N - Suc k) :: u64) = 0
             then Inr (s1, ?vak + psz, ?pak + psz, of_nat (N - Suc k))
             else fill_ptes mk psz flags s1 ptp (i + 1) (?vak + psz) (?pak + psz)
                    (of_nat (N - Suc k))) = Inr (s', va', pa', pn')"
    using Suc.prems(5) unfolding step dec s1_def .
  show ?case
  proof (cases "Suc k = N")
    case True
    with z have "(of_nat (N - Suc k) :: u64) = 0" by simp
    with eq have "Inr (s1, ?vak + psz, ?pak + psz, of_nat (N - Suc k) :: u64) = Inr (s', va', pa', pn')"
      by simp
    then have "s' = s1" "va' = va0 + of_nat (Suc k) * psz" "pa' = pa0 + of_nat (Suc k) * psz"
      "pn' = of_nat (N - Suc k)"
      by (auto simp: algebra_simps)
    with inv1 ps1 Suc.prems(2) show ?thesis
      by (intro exI[of _ "Suc k"]) simp
  next
    case False
    with Suc.prems(2) have k1: "Suc k < N" by simp
    from z False have nz: "(of_nat (N - Suc k) :: u64) \<noteq> 0" by simp
    have rec: "fill_ptes mk psz flags s1 ptp (i + 1) (va0 + of_nat (Suc k) * psz)
                 (pa0 + of_nat (Suc k) * psz) (of_nat (N - Suc k)) = Inr (s', va', pa', pn')"
      unfolding unit_Suc using eq nz by simp
    have n: "n = 512 - (i + 1)" using Suc.hyps(2) by simp
    have i1: "i + 1 \<le> 512" using i by simp
    have cond: "present (mem s1) r (vpath L (va0 + of_nat (Suc k) * psz)) \<and>
                ptp = tbl (mem s1) r (vpath L (va0 + of_nat (Suc k) * psz)) \<and>
                i + 1 = level_index L (va0 + of_nat (Suc k) * psz)" if "i + 1 < 512"
    proof -
      from that ii have q: "level_index L ?vak < 511" by simp
      have vp: "vpath L (va0 + of_nat (Suc k) * psz) = vpath L ?vak"
        unfolding unit_Suc using vpath_step[OF L q, of L] by (simp add: psz)
      have ix: "level_index L (va0 + of_nat (Suc k) * psz) = i + 1"
        unfolding unit_Suc using index_step[OF L _ q, of L] ii by (simp add: psz)
      from inv1 have "present (mem s1) r (vpath L ?vak)"
        by (simp add: map_inv_def)
      moreover have "tbl (mem s1) r (vpath L ?vak) = tbl (mem s) r (vpath L ?vak)"
      proof -
        from Suc.prems(1) have tinv: "tree_inv P s r" by (simp add: map_inv_def)
        have ok0: "okpath 3 (vpath L ?vak)" using L by (simp add: okpath_vpath)
        have kind: "length (vpath L ?vak) = 3 \<or> \<not> valid_table (lv ?pak)"
          using lv(3) L by (cases "L = 3") (simp_all add: valid_table_def)
        have st: "store_step (mem s) r (vpath L ?vak) i (lv ?pak) (mem s1)"
          using tree_inv_store_step[OF tinv ok0 pr i kind]
          by (simp add: s1_def write_pte_def ptp)
        from inv1 have "present (mem s1) r (vpath L ?vak)" by (simp add: map_inv_def)
        from store_back(2)[OF st ok0 this] show ?thesis .
      qed
      ultimately show ?thesis using vp ix ptp by simp
    qed
    from Suc.hyps(1)[OF n inv1 k1 i1 cond rec] obtain k' where
      "Suc k \<le> k'" "k' \<le> N" "map_inv P r L va0 pa0 psz lv B D k' s'"
      "va' = va0 + of_nat k' * psz" "pa' = pa0 + of_nat k' * psz" "pn' = of_nat (N - k')"
      "pool s' = pool s1" "freed s' = freed s1" by blast
    with ps1 show ?thesis by (intro exI[of _ k']) simp
  qed
qed

lemma map_inv_grows:
  assumes L: "L \<le> 3" and lv: "\<And>pa. \<not> IS_PTE_INVALID (lv pa)"
    and inv: "map_inv P r L va0 pa0 psz lv B D k s" and g: "grows P r s s1"
    and depth: "\<forall>p. okpath 3 p \<and> present (mem s1) r p \<longrightarrow> present (mem s) r p \<or> length p \<le> L"
  shows "map_inv P r L va0 pa0 psz lv B D k s1"
proof -
  let ?va = "\<lambda>j. va0 + of_nat j * psz"
  from inv have d0: "\<And>p. okpath 3 p \<Longrightarrow> present (mem s) r p \<Longrightarrow> length p \<le> L"
    and lvs: "leaves (mem s) r \<subseteq> B \<union> (\<lambda>j. slot L (?va j)) ` {..<k}"
    and prs: "\<And>j. j < k \<Longrightarrow> present (mem s) r (vpath L (?va j))"
    and vals: "\<And>j. D \<Longrightarrow> j < k \<Longrightarrow> mem s (slot_addr (mem s) r L (?va j)) = lv (pa0 + of_nat j * psz)"
    and bl: "B \<subseteq> leaves (mem s) r"
    by (simp_all add: map_inv_def)
  from g have 1: "tree_inv P s1 r" and sub: "leaves (mem s1) r \<subseteq> leaves (mem s) r"
    and fwd: "\<And>p. okpath 3 p \<Longrightarrow> present (mem s) r p
                \<Longrightarrow> present (mem s1) r p \<and> tbl (mem s1) r p = tbl (mem s) r p"
    and same: "\<And>p i. okpath 3 p \<Longrightarrow> present (mem s) r p \<Longrightarrow> i < 512 \<Longrightarrow>
                 \<not> IS_PTE_INVALID (mem s (ent_addr (tbl (mem s) r p) i)) \<Longrightarrow>
                 mem s1 (ent_addr (tbl (mem s) r p) i) = mem s (ent_addr (tbl (mem s) r p) i)"
    by (simp_all add: grows_def)
  have okj: "okpath 3 (vpath L (?va j))" for j using L by (simp add: okpath_vpath)
  have 2: "length p \<le> L" if "okpath 3 p" "present (mem s1) r p" for p
    using depth that d0[OF that(1)] by blast
  have 3: "leaves (mem s1) r \<subseteq> B \<union> (\<lambda>j. slot L (?va j)) ` {..<k}" using sub lvs by blast
  have 4: "present (mem s1) r (vpath L (?va j))" if "j < k" for j
    using fwd[OF okj prs[OF that]] by simp
  have 5: "mem s1 (slot_addr (mem s1) r L (?va j)) = lv (pa0 + of_nat j * psz)"
    if d: "D" and j: "j < k" for j
  proof -
    have t: "tbl (mem s1) r (vpath L (?va j)) = tbl (mem s) r (vpath L (?va j))"
      using fwd[OF okj prs[OF j]] by simp
    have v: "mem s (ent_addr (tbl (mem s) r (vpath L (?va j))) (level_index L (?va j)))
             = lv (pa0 + of_nat j * psz)"
      using vals[OF d j] by (simp add: slot_addr_def)
    then have "\<not> IS_PTE_INVALID (mem s (ent_addr (tbl (mem s) r (vpath L (?va j)))
                                       (level_index L (?va j))))"
      using lv by simp
    from same[OF okj prs[OF j] index_lt this] t v show ?thesis by (simp add: slot_addr_def)
  qed
  have 6: "B \<subseteq> leaves (mem s1) r"
  proof
    fix x assume "x \<in> B"
    with bl have x: "x \<in> leaves (mem s) r" by blast
    obtain p i where pi: "x = (p, i)" by (cases x)
    from x pi have ok: "okpath 3 p" "i < 512" and prp: "present (mem s) r p"
      and l: "is_leaf (length p) (mem s (ent_addr (tbl (mem s) r p) i))"
      by (simp_all add: leaves_def)
    from l have "\<not> IS_PTE_INVALID (mem s (ent_addr (tbl (mem s) r p) i))"
      by (simp add: is_leaf_def)
    from same[OF ok(1) prp ok(2) this] fwd[OF ok(1) prp] l ok show "x \<in> leaves (mem s1) r"
      by (simp add: leaves_def pi)
  qed
  show ?thesis unfolding map_inv_def using 1 2 3 4 5 6 by simp
qed

lemma map_loop_done: "map_loop L mk psz flags s r va pa 0 = Inr (s, va, pa)"
  by (subst map_loop.simps) simp

lemma map_loop_inv:
  assumes L: "1 \<le> L" "L \<le> 3" and psz: "psz = 2 ^ level_shift L"
    and lv: "\<And>pa. set_pte_flags (mk pa) flags USER_PTE = Inr (lv pa)"
      "\<And>pa. \<not> IS_PTE_INVALID (lv pa)" "\<And>pa. L < 3 \<Longrightarrow> \<not> IS_PTE_TABLE (lv pa)"
    and N: "N < 2 ^ 64"
    and D: "D \<Longrightarrow> inj_on (\<lambda>j. slot L (va0 + of_nat j * psz)) {..<N}"
    and safe: "\<And>j l. j < N \<Longrightarrow> l < L \<Longrightarrow> slot l (va0 + of_nat j * psz) \<notin> B"
  shows "map_inv P r L va0 pa0 psz lv B D k s \<Longrightarrow> k \<le> N \<Longrightarrow>
     map_loop L mk psz flags s r (va0 + of_nat k * psz) (pa0 + of_nat k * psz) (of_nat (N - k))
       = Inr (s', va', pa') \<Longrightarrow>
     map_inv P r L va0 pa0 psz lv B D N s' \<and> va' = va0 + of_nat N * psz \<and>
     pa' = pa0 + of_nat N * psz \<and> freed s' = freed s"
proof (induction "N - k" arbitrary: k s rule: less_induct)
  case less
  let ?vak = "va0 + of_nat k * psz" and ?pak = "pa0 + of_nat k * psz"
  show ?case
  proof (cases "k = N")
    case True
    with less.prems(3) have "s' = s" "va' = va0 + of_nat N * psz" "pa' = pa0 + of_nat N * psz"
      by (simp_all add: map_loop_done)
    with less.prems(1) True show ?thesis by simp
  next
    case False
    with less.prems(2) have kN: "k < N" by simp
    then have nz: "(of_nat (N - k) :: u64) \<noteq> 0"
      using of_nat_u64_eq_0[of "N - k"] N by simp
    from less.prems(1) have tinv: "tree_inv P s r"
      and lvs: "leaves (mem s) r \<subseteq> B \<union> (\<lambda>j. slot L (va0 + of_nat j * psz)) ` {..<k}"
      by (simp_all add: map_inv_def)
    from less.prems(3) nz obtain cur s1 where
      walk: "walk_alloc s r [0..<L] ?vak = Inr (cur, s1)"
      by (subst (asm) map_loop.simps) (auto split: sum.splits)
    have safe': "\<forall>l'. 0 \<le> l' \<and> l' < L \<longrightarrow> (vpath l' ?vak, level_index l' ?vak) \<notin> leaves (mem s) r"
    proof (intro allI impI)
      fix l' assume l': "0 \<le> l' \<and> l' < L"
      have "slot l' ?vak \<notin> B" using safe[OF kN] l' by simp
      moreover have "slot l' ?vak \<notin> (\<lambda>j. slot L (va0 + of_nat j * psz)) ` {..<k}"
      proof
        assume "slot l' ?vak \<in> (\<lambda>j. slot L (va0 + of_nat j * psz)) ` {..<k}"
        then obtain j where "slot l' ?vak = slot L (va0 + of_nat j * psz)" by blast
        then have "length (vpath l' ?vak) = length (vpath L (va0 + of_nat j * psz))"
          by (simp add: slot_def)
        with l' show False by simp
      qed
      ultimately show "(vpath l' ?vak, level_index l' ?vak) \<notin> leaves (mem s) r"
        using lvs by (auto simp: slot_def)
    qed
    have w: "walk_alloc s (tbl (mem s) r (vpath 0 ?vak)) [0..<L] ?vak = Inr (cur, s1)"
      using walk by simp
    have pr0: "present (mem s) r (vpath 0 ?vak)" by simp
    from walk_alloc_path[OF tinv L(2) _ pr0 safe' w]
    have cur: "cur = tbl (mem s1) r (vpath L ?vak)" and prc: "present (mem s1) r (vpath L ?vak)"
      and g: "grows P r s s1"
      and depth: "\<forall>p. okpath 3 p \<and> present (mem s1) r p \<longrightarrow> present (mem s) r p \<or> length p \<le> L"
      by simp_all
    have inv1: "map_inv P r L va0 pa0 psz lv B D k s1"
      by (rule map_inv_grows[OF L(2) lv(2) less.prems(1) g depth])
    from g have tinv1: "tree_inv P s1 r" and fr1: "freed s1 = freed s" by (simp_all add: grows_def)
    have okc: "okpath 3 (vpath L ?vak)" using L by (simp add: okpath_vpath)
    have nn: "cur \<noteq> NULL" unfolding cur by (rule tree_inv_nonnull[OF tinv1 okc prc])
    from less.prems(3) nz walk nn obtain s2 va2 pa2 pn2 where
      fill: "fill_ptes mk psz flags s1 cur (level_index L ?vak) ?vak ?pak (of_nat (N - k))
             = Inr (s2, va2, pa2, pn2)"
      and rest: "map_loop L mk psz flags s2 r va2 pa2 pn2 = Inr (s', va', pa')"
      by (subst (asm) map_loop.simps) (auto split: sum.splits)
    have il: "level_index L ?vak \<le> 512" using index_lt[of L ?vak] by simp
    from fill_ptes_inv[OF L psz lv N D inv1 kN il _ fill] prc cur index_lt[of L ?vak]
    obtain k' where k': "k < k'" "k' \<le> N" and inv2: "map_inv P r L va0 pa0 psz lv B D k' s2"
      and r2: "va2 = va0 + of_nat k' * psz" "pa2 = pa0 + of_nat k' * psz" "pn2 = of_nat (N - k')"
      and fr2: "freed s2 = freed s1"
      by blast
    have m: "N - k' < N - k" using k' kN by simp
    from less.hyps[OF m inv2 k'(2)] rest r2 fr1 fr2 show ?thesis by simp
  qed
qed

lemma set_pte_flags_Inr: "\<exists>e'. set_pte_flags e flags USER_PTE = Inr e'"
  by (simp add: set_pte_flags_def Let_def)

lemma set_pte_flags_leaf_val: "set_pte_flags (mk pa) flags USER_PTE = Inr (leaf_val mk flags pa)"
  using set_pte_flags_Inr[of "mk pa" flags] by (auto simp: leaf_val_def)

lemma bit_bf_set:
  "bit (bf_set lo w v x) n = (if lo \<le> n \<and> n < lo + w then n < 64 \<and> bit v (n - lo) else bit x n)"
  by (auto simp: bf_set_def bit_simps dest: bit_imp_le_length)

lemma set_pte_flags_keeps:
  assumes "set_pte_flags e flags USER_PTE = Inr e'"
  shows "bit e' 0 = bit e 0" "bit e' 1 = bit e 1" "bf_get 12 36 e' = bf_get 12 36 e"
  using assms
  by (auto simp: set_pte_flags_def Let_def field_defs bit_bf_set bf_get_set_other
      split: if_splits)

lemma set_pte_flags_perms:
  assumes "set_pte_flags e flags USER_PTE = Inr e'"
  shows "get_AP e' = (if flags AND VMR_WRITE \<noteq> 0 then AARCH64_MMU_ATTR_PAGE_AP_HIGH_RW_EL0_RW
                      else AARCH64_MMU_ATTR_PAGE_AP_HIGH_RO_EL0_RO)"
    "get_UXN e' = (if flags AND VMR_EXEC \<noteq> 0 then AARCH64_MMU_ATTR_PAGE_UX
                   else AARCH64_MMU_ATTR_PAGE_UXN)"
  using assms
  by (auto simp: set_pte_flags_def Let_def field_defs bf_get_set_same bf_get_set_other attr_defs
      split: if_splits)

lemma new_desc_bits:
  "bit (new_l3_page pa) 0" "bit (new_l3_page pa) (Suc 0)"
  "bit (new_l3_page_huge pa) 0" "\<not> bit (new_l3_page_huge pa) (Suc 0)"
  "bit (new_l1_block pa) 0" "\<not> bit (new_l1_block pa) (Suc 0)"
  "bit (new_l2_block pa) 0" "\<not> bit (new_l2_block pa) (Suc 0)"
  by (simp_all add: new_l3_page_def new_l3_page_huge_def new_l1_block_def new_l2_block_def
      field_defs bit_bf_set)

lemma leaf_val_bits:
  "bit (leaf_val mk flags pa) 0 = bit (mk pa) 0"
  "bit (leaf_val mk flags pa) (Suc 0) = bit (mk pa) (Suc 0)"
  "bf_get 12 36 (leaf_val mk flags pa) = bf_get 12 36 (mk pa)"
  using set_pte_flags_keeps[where e = "mk pa" and flags = flags and e' = "leaf_val mk flags pa"]
    set_pte_flags_leaf_val[where mk = mk and pa = pa and flags = flags]
  by simp_all

lemma leaf_val_valid:
  "\<not> IS_PTE_INVALID (leaf_val new_l3_page flags pa)"
  "\<not> IS_PTE_INVALID (leaf_val new_l3_page_huge flags pa)"
  "\<not> IS_PTE_INVALID (leaf_val new_l1_block flags pa)"
  "\<not> IS_PTE_INVALID (leaf_val new_l2_block flags pa)"
  "\<not> IS_PTE_TABLE (leaf_val new_l1_block flags pa)"
  "\<not> IS_PTE_TABLE (leaf_val new_l2_block flags pa)"
  by (simp_all add: IS_PTE_bits leaf_val_bits new_desc_bits)

lemma leaf_val_l3_paddr:
  assumes "page_aligned pa" "pa < 2 ^ 48"
  shows "GET_PADDR_IN_PTE (leaf_val new_l3_page flags pa) = pa"
proof -
  have "bf_get 12 36 (leaf_val new_l3_page flags pa) = bf_get 12 36 (new_l3_page pa)"
    by (rule leaf_val_bits(3))
  also have "\<dots> = take_bit 36 (drop_bit 12 pa)"
    by (simp add: new_l3_page_def field_defs bf_get_set_same PAGE_SHIFT_def)
  finally show ?thesis
    by (simp add: GET_PADDR_IN_PTE_def get_next_table_addr_def PAGE_SHIFT_def
        pfn_roundtrip[OF assms])
qed

text \<open>A zeroed root with a well-formed pool of free pages.\<close>

lemma fresh_root_present:
  assumes z: "\<forall>i<512. IS_PTE_INVALID (m (ent_addr r i))"
  shows "okpath 3 p \<Longrightarrow> present m r p \<Longrightarrow> p = []"
proof (induction p)
  case Nil
  show ?case by simp
next
  case (Cons i p)
  then have "okpath 3 p" "present m r p" "i < 512" by (simp_all add: okpath_Cons)
  with Cons.IH have "p = []" by simp
  with Cons.prems z \<open>i < 512\<close> show ?case by (simp add: valid_table_def)
qed

lemma fresh_root_inv:
  assumes "page_aligned r" "r \<noteq> NULL" "\<forall>i<512. IS_PTE_INVALID (mem s (ent_addr r i))"
    and "distinct (pool s)" "\<forall>p\<in>set (pool s). good_page p" "r \<notin> set (pool s)"
  shows "tree_inv (pool s) s r" "leaves (mem s) r = {}"
    "\<And>p. okpath 3 p \<Longrightarrow> present (mem s) r p \<Longrightarrow> p = []"
proof -
  note only = fresh_root_present[OF assms(3)]
  show "\<And>p. okpath 3 p \<Longrightarrow> present (mem s) r p \<Longrightarrow> p = []" by (rule only)
  have "inj_tree (mem s) r" unfolding inj_tree_def using only by blast
  moreover have "\<exists>taken. pool s = taken @ pool s \<and>
       (\<forall>p. okpath 3 p \<and> p \<noteq> [] \<and> present (mem s) r p \<longrightarrow> tbl (mem s) r p \<in> set taken)"
    using only by (intro exI[of _ "[]"]) auto
  ultimately show "tree_inv (pool s) s r" using assms unfolding tree_inv_def by blast
  show "leaves (mem s) r = {}"
  proof (rule ccontr)
    assume "leaves (mem s) r \<noteq> {}"
    then obtain p i where pi: "(p, i) \<in> leaves (mem s) r" by auto
    then have "okpath 3 p" "present (mem s) r p" "i < 512"
      "\<not> IS_PTE_INVALID (mem s (ent_addr (tbl (mem s) r p) i))"
      by (simp_all add: leaves_def is_leaf_def)
    with only[of p] assms(3) show False by auto
  qed
qed

lemma fresh_map_inv:
  assumes "page_aligned r" "r \<noteq> NULL" "\<forall>i<512. IS_PTE_INVALID (mem s (ent_addr r i))"
    and "distinct (pool s)" "\<forall>p\<in>set (pool s). good_page p" "r \<notin> set (pool s)"
  shows "map_inv (pool s) r L va0 pa0 psz lv {} D 0 s"
proof -
  have "\<forall>p. okpath 3 p \<and> present (mem s) r p \<longrightarrow> length p \<le> L"
    using fresh_root_inv(3)[OF assms] by fastforce
  with fresh_root_inv(1,2)[OF assms] show ?thesis by (simp add: map_inv_def)
qed

lemma key_0: "key 0 v = level_index 0 v"
  by (simp add: key_def level_index_nat)

lemma key_Suc:
  assumes "Suc L \<le> 3"
  shows "key (Suc L) v = level_index (Suc L) v + 512 * key L v"
proof -
  let ?u = "unat v div 2 ^ level_shift (Suc L)"
  have sh: "level_shift L = level_shift (Suc L) + 9" using assms by (simp add: level_shift_def)
  have "unat v div 2 ^ level_shift L = ?u div 512"
    unfolding sh by (simp add: power_add div_mult2_eq)
  then have k: "key L v = (?u div 512) mod 512 ^ Suc L" by (simp add: key_def)
  have "?u mod (512 * 512 ^ Suc L) = 512 * (?u div 512 mod 512 ^ Suc L) + ?u mod 512"
    by (rule mod_mult2_eq)
  then show ?thesis using assms k by (simp add: key_def level_index_nat)
qed

lemma slot_key: "L \<le> 3 \<Longrightarrow> slot L v = slot L v' \<Longrightarrow> key L v = key L v'"
proof (induction L)
  case 0
  then show ?case by (simp add: key_0 slot_def)
next
  case (Suc L)
  from Suc.prems(2) have "slot L v = slot L v'" "level_index (Suc L) v = level_index (Suc L) v'"
    by (simp_all add: slot_def)
  with Suc.IH Suc.prems(1) show ?case by (simp add: key_Suc)
qed

lemma unat_unit_mult: "sh < 64 \<Longrightarrow> unat (of_nat j * 2 ^ sh :: u64) = (j * 2 ^ sh) mod 2 ^ 64"
proof -
  assume "sh < 64"
  have "(of_nat j * 2 ^ sh :: u64) = of_nat (j * 2 ^ sh)" by simp
  then show ?thesis by (simp only: unat_of_nat) simp
qed

lemma unit_add:
  assumes sh: "sh < 64"
  shows "unat (va + of_nat j * 2 ^ sh :: u64) div 2 ^ sh
         = (unat va div 2 ^ sh + j) mod 2 ^ (64 - sh)"
proof -
  have p: "(2::nat) ^ 64 = 2 ^ sh * 2 ^ (64 - sh)" using sh by (simp flip: power_add)
  have "unat (va + of_nat j * 2 ^ sh :: u64) = (unat va + unat (of_nat j * 2 ^ sh :: u64)) mod 2 ^ 64"
    by (simp add: unat_word_ariths)
  also have "\<dots> = (unat va + j * 2 ^ sh) mod 2 ^ 64"
    by (simp only: unat_unit_mult[OF sh] mod_add_right_eq)
  finally have "unat (va + of_nat j * 2 ^ sh :: u64) = (unat va + j * 2 ^ sh) mod (2 ^ sh * 2 ^ (64 - sh))"
    by (simp only: p)
  also have "\<dots> = 2 ^ sh * ((unat va + j * 2 ^ sh) div 2 ^ sh mod 2 ^ (64 - sh))
                   + (unat va + j * 2 ^ sh) mod 2 ^ sh"
    by (rule mod_mult2_eq)
  finally have "unat (va + of_nat j * 2 ^ sh :: u64) div 2 ^ sh
                = (unat va + j * 2 ^ sh) div 2 ^ sh mod 2 ^ (64 - sh)"
    by simp
  then show ?thesis by (simp add: add.commute)
qed

lemma key_unit:
  assumes L: "L \<le> 3"
  shows "key L (va + of_nat j * 2 ^ level_shift L) = (unat va div 2 ^ level_shift L + j) mod 512 ^ Suc L"
proof -
  let ?sh = "level_shift L"
  have sh: "?sh < 64" by (simp add: level_shift_def)
  have "(512::nat) ^ Suc L = 2 ^ (9 * Suc L)" by (simp only: power_mult) simp
  moreover have "9 * Suc L \<le> 64 - ?sh" using L by (simp add: level_shift_def)
  ultimately have "(512::nat) ^ Suc L dvd 2 ^ (64 - ?sh)"
    by (simp only: le_imp_power_dvd)
  then show ?thesis
    unfolding key_def unit_add[OF sh] by (rule mod_mod_cancel)
qed

lemma add_mod_inj:
  fixes a :: nat
  assumes "(a + j) mod M = (a + j') mod M" "j < M" "j' < M"
  shows "j = j'"
proof -
  have aux: "j = j'" if "(a + j) mod M = (a + j') mod M" "j \<le> j'" "j' < M" for j j'
  proof -
    from that(1,2) have "M dvd (a + j') - (a + j)"
      by (metis add_le_cancel_left mod_eq_dvd_iff_nat)
    then have "M dvd j' - j" by simp
    with that(3) have "j' - j = 0" by (meson dvd_imp_le less_imp_diff_less not_le zero_less_iff_neq_zero linorder_not_less)
    with that(2) show ?thesis by simp
  qed
  show ?thesis
  proof (cases "j \<le> j'")
    case True
    from aux[OF assms(1) True assms(3)] show ?thesis .
  next
    case False
    then have "j' \<le> j" by simp
    from aux[OF assms(1)[symmetric] this assms(2)] show ?thesis by simp
  qed
qed

lemma slots_inj:
  assumes "L \<le> 3" "N \<le> 512 ^ Suc L"
  shows "inj_on (\<lambda>j. slot L (va + of_nat j * 2 ^ level_shift L)) {..<N}"
proof (rule inj_onI)
  fix j j' assume j: "j \<in> {..<N}" "j' \<in> {..<N}"
    and e: "slot L (va + of_nat j * 2 ^ level_shift L) = slot L (va + of_nat j' * 2 ^ level_shift L)"
  from slot_key[OF assms(1) e]
  have "(unat va div 2 ^ level_shift L + j) mod 512 ^ Suc L
        = (unat va div 2 ^ level_shift L + j') mod 512 ^ Suc L"
    by (simp only: key_unit[OF assms(1)])
  moreover from j assms(2) have "j < 512 ^ Suc L" "j' < 512 ^ Suc L" by simp_all
  ultimately show "j = j'" by (rule add_mod_inj)
qed

lemma vpath_numeral:
  "vpath 1 v = [GET_L0_INDEX v]"
  "vpath 2 v = [GET_L1_INDEX v, GET_L0_INDEX v]"
  "vpath 3 v = [GET_L2_INDEX v, GET_L1_INDEX v, GET_L0_INDEX v]"
  by (simp_all add: numeral_2_eq_2 numeral_3_eq_3 level_index_def)

lemma level_index_3: "level_index 3 v = GET_L3_INDEX v"
  by (simp add: level_index_def)

lemma translate_present_l3:
  assumes inv: "tree_inv P s r" and pr: "present (mem s) r (vpath 3 v)"
    and e: "\<not> IS_PTE_INVALID (mem s (slot_addr (mem s) r 3 v))"
  shows "translate_spec (mem s) r v =
           Q_OK (GET_PADDR_IN_PTE (mem s (slot_addr (mem s) r 3 v)) + take_bit 12 v)
             (slot_addr (mem s) r 3 v)"
proof -
  let ?m = "mem s"
  have p1: "present ?m r (vpath 1 v)" and p2: "present ?m r (vpath 2 v)"
    using pr by (simp_all add: vpath_numeral level_index_def)
  have n0: "r \<noteq> NULL" using inv by (simp add: tree_inv_def)
  have n1: "tbl ?m r (vpath 1 v) \<noteq> NULL"
    by (rule tree_inv_nonnull[OF inv okpath_vpath p1]) simp
  have n2: "tbl ?m r (vpath 2 v) \<noteq> NULL"
    by (rule tree_inv_nonnull[OF inv okpath_vpath p2]) simp
  have n3: "tbl ?m r (vpath 3 v) \<noteq> NULL"
    by (rule tree_inv_nonnull[OF inv okpath_vpath pr]) simp
  from pr n0 n1 n2 n3 e show ?thesis
    by (simp add: translate_spec_def Let_def vpath_numeral valid_table_def slot_addr_def
        level_index_def)
qed

lemma translate_no_leaves:
  assumes inv: "tree_inv P s r" and nl: "leaves (mem s) r = {}"
  shows "translate_spec (mem s) r v = Q_ENOMAPPING"
proof -
  let ?m = "mem s"
  have step: "IS_PTE_INVALID (?m (ent_addr (tbl ?m r (vpath l v)) (level_index l v))) \<or>
              present ?m r (vpath (Suc l) v)" if "l < 3" "present ?m r (vpath l v)" for l
  proof (cases "IS_PTE_INVALID (?m (ent_addr (tbl ?m r (vpath l v)) (level_index l v)))")
    case True
    then show ?thesis by simp
  next
    case False
    have "(vpath l v, level_index l v) \<notin> leaves ?m r" using nl by simp
    with False that have "IS_PTE_TABLE (?m (ent_addr (tbl ?m r (vpath l v)) (level_index l v)))"
      by (auto simp: leaves_def is_leaf_def okpath_vpath index_lt)
    with False that(2) show ?thesis by (simp add: valid_table_def)
  qed
  have last: "IS_PTE_INVALID (?m (ent_addr (tbl ?m r (vpath 3 v)) (level_index 3 v)))"
    if "present ?m r (vpath 3 v)"
  proof (rule ccontr)
    assume "\<not> IS_PTE_INVALID (?m (ent_addr (tbl ?m r (vpath 3 v)) (level_index 3 v)))"
    with that have "(vpath 3 v, level_index 3 v) \<in> leaves ?m r"
      by (simp add: leaves_def is_leaf_def okpath_vpath index_lt)
    with nl show False by simp
  qed
  from step[of 0] step[of 1] step[of 2] last show ?thesis
    by (auto simp: translate_spec_def Let_def vpath_numeral level_index_def valid_table_def
        numeral_2_eq_2 numeral_3_eq_3)
qed

lemma aligned_of_nat:
  assumes "page_aligned x"
  shows "x = of_nat (unat x div 4096) * 4096" "unat x = 4096 * (unat x div 4096)"
proof -
  from unat_aligned[OF assms] obtain k where k: "unat x = 4096 * k" by blast
  then show u: "unat x = 4096 * (unat x div 4096)" by simp
  have "x = of_nat (unat x)" by simp
  also have "\<dots> = of_nat (4096 * (unat x div 4096))" using u by simp
  finally show "x = of_nat (unat x div 4096) * 4096" by (simp add: mult.commute)
qed

lemma pages_of_len_aligned:
  assumes "page_aligned len"
  shows "pages_of_len len = of_nat (unat len div 4096)"
proof -
  have m: "len mod PAGE_SIZE = 0"
    using assms by (simp add: page_aligned_def PAGE_SIZE_def take_bit_eq_mod)
  have "unat (len div PAGE_SIZE) = unat len div 4096"
    by (simp add: unat_div PAGE_SIZE_def)
  moreover have "len div PAGE_SIZE = of_nat (unat (len div PAGE_SIZE))" by simp
  ultimately have "len div PAGE_SIZE = of_nat (unat len div 4096)" by simp
  with m show ?thesis by (simp add: pages_of_len_def)
qed

lemma PAGE_SIZE_shift: "PAGE_SIZE = 2 ^ level_shift 3"
  by (simp add: PAGE_SIZE_def level_shift_def)

section \<open>Mapping a range, then translating\<close>

text \<open>
  C1 (amended). The root is a zero-initialised page, the allocator hands out distinct,
  page-aligned, non-null pages of the linear map that are not the root, \<open>va\<close>, \<open>pa\<close> and
  \<open>len\<close> are page-aligned, and the physical range ends at or below \<open>2 ^ 48\<close>, the width of
  the output address of a descriptor. If \<open>map_range_in_pgtbl\<close> returns (the allocator was
  not exhausted), then \<open>query_in_pgtbl\<close> at every page-aligned offset \<open>off < len\<close> returns
  the physical address \<open>pa + off\<close> and the address of a leaf descriptor whose access
  permission is read-write if \<open>VMR_WRITE\<close> was given and read-only otherwise, and whose
  user-execute-never bit is clear if \<open>VMR_EXEC\<close> was given and set otherwise.
\<close>

theorem map_then_translate:
  assumes root: "page_aligned pgtbl" "pgtbl \<noteq> NULL" "\<forall>i<512. mem s (ent_addr pgtbl i) = 0"
    and pool: "distinct (pool s)" "\<forall>p\<in>set (pool s). good_page p" "pgtbl \<notin> set (pool s)"
    and al: "page_aligned va" "page_aligned pa" "page_aligned len"
    and fit: "unat pa + unat len \<le> 2 ^ 48"
    and m: "map_range_in_pgtbl s pgtbl va pa len flags = Inr s'"
    and off: "off < len" "page_aligned off"
  shows "\<exists>pte. query_in_pgtbl s' pgtbl (va + off) = Inr (Q_OK (pa + off) pte, s') \<and>
           get_AP (mem s' pte) = (if flags AND VMR_WRITE \<noteq> 0
                                  then AARCH64_MMU_ATTR_PAGE_AP_HIGH_RW_EL0_RW
                                  else AARCH64_MMU_ATTR_PAGE_AP_HIGH_RO_EL0_RO) \<and>
           get_UXN (mem s' pte) = (if flags AND VMR_EXEC \<noteq> 0 then AARCH64_MMU_ATTR_PAGE_UX
                                   else AARCH64_MMU_ATTR_PAGE_UXN)"
proof -
  define N where "N = unat len div 4096"
  define j where "j = unat off div 4096"
  let ?lv = "leaf_val new_l3_page flags"
  have N64: "N < 2 ^ 64" using unsigned_less[of len, where 'a = nat] by (simp add: N_def)
  have N36: "N \<le> 512 ^ Suc 3" using fit by (simp add: N_def)
  have pn: "pages_of_len len = of_nat (N - 0)"
    using pages_of_len_aligned[OF al(3)] by (simp add: N_def)
  have z: "\<forall>i<512. IS_PTE_INVALID (mem s (ent_addr pgtbl i))"
    using root(3) by (simp add: zero_invalid)
  have inv0: "map_inv (pool s) pgtbl 3 va pa PAGE_SIZE ?lv {} True 0 s"
    by (rule fresh_map_inv[OF root(1,2) z pool])
  from m obtain va' pa' where
    loop: "map_loop 3 new_l3_page PAGE_SIZE flags s pgtbl (va + of_nat 0 * PAGE_SIZE)
             (pa + of_nat 0 * PAGE_SIZE) (of_nat (N - 0)) = Inr (s', va', pa')"
    by (auto simp: map_range_in_pgtbl_def pn split: sum.splits)
  have D: "inj_on (\<lambda>j. slot 3 (va + of_nat j * PAGE_SIZE)) {..<N}"
    unfolding PAGE_SIZE_shift by (rule slots_inj[OF _ N36]) simp
  have "map_inv (pool s) pgtbl 3 va pa PAGE_SIZE ?lv {} True N s' \<and>
        va' = va + of_nat N * PAGE_SIZE \<and> pa' = pa + of_nat N * PAGE_SIZE \<and> freed s' = freed s"
  proof (rule map_loop_inv[where L = 3 and mk = new_l3_page and flags = flags and lv = ?lv
        and D = True and B = "{}" and k = 0 and N = N and s = s])
    show "(1::nat) \<le> 3" "(3::nat) \<le> 3" by simp_all
    show "PAGE_SIZE = 2 ^ level_shift 3" by (rule PAGE_SIZE_shift)
    show "\<And>pa. set_pte_flags (new_l3_page pa) flags USER_PTE = Inr (?lv pa)"
      by (rule set_pte_flags_leaf_val)
    show "\<And>pa. \<not> IS_PTE_INVALID (?lv pa)" by (rule leaf_val_valid(1))
    show "\<And>pa. (3::nat) < 3 \<Longrightarrow> \<not> IS_PTE_TABLE (?lv pa)" by simp
    show "N < 2 ^ 64" by (rule N64)
    show "inj_on (\<lambda>j. slot 3 (va + of_nat j * PAGE_SIZE)) {..<N}" by (rule D)
    show "\<And>j l. slot l (va + of_nat j * PAGE_SIZE) \<notin> {}" by simp
    show "map_inv (pool s) pgtbl 3 va pa PAGE_SIZE ?lv {} True 0 s" by (rule inv0)
    show "0 \<le> N" by simp
    show "map_loop 3 new_l3_page PAGE_SIZE flags s pgtbl (va + of_nat 0 * PAGE_SIZE)
            (pa + of_nat 0 * PAGE_SIZE) (of_nat (N - 0)) = Inr (s', va', pa')" by (rule loop)
  qed
  then have invN: "map_inv (pool s) pgtbl 3 va pa PAGE_SIZE ?lv {} True N s'" by simp
  from off(1) have "unat off < unat len" by (simp add: word_less_nat_alt)
  then have jN: "j < N"
    using aligned_of_nat(2)[OF off(2)] aligned_of_nat(2)[OF al(3)] by (simp add: j_def N_def)
  have offj: "off = of_nat j * PAGE_SIZE"
    using aligned_of_nat(1)[OF off(2)] by (simp add: j_def PAGE_SIZE_def)
  from invN jN have tinv: "tree_inv (pool s) s' pgtbl"
    and pr: "present (mem s') pgtbl (vpath 3 (va + off))"
    and val: "mem s' (slot_addr (mem s') pgtbl 3 (va + off)) = ?lv (pa + off)"
    by (simp_all add: map_inv_def offj)
  have lt: "unat pa + unat off < 2 ^ 48" using fit \<open>unat off < unat len\<close> by simp
  then have "unat (pa + off) = unat pa + unat off"
    using unat_add_lem[of pa off] by simp
  with lt have pao: "pa + off < 2 ^ 48" by (simp add: word_less_nat_alt)
  have paal: "page_aligned (pa + off)" by (rule page_aligned_add[OF al(2) off(2)])
  have vaal: "take_bit 12 (va + off) = 0"
    using page_aligned_add[OF al(1) off(2)] by (simp add: page_aligned_def)
  have nv: "\<not> IS_PTE_INVALID (mem s' (slot_addr (mem s') pgtbl 3 (va + off)))"
    unfolding val by (rule leaf_val_valid(1))
  have "translate_spec (mem s') pgtbl (va + off)
        = Q_OK (pa + off) (slot_addr (mem s') pgtbl 3 (va + off))"
    using translate_present_l3[OF tinv pr nv] vaal
    by (simp add: val leaf_val_l3_paddr[OF paal pao])
  moreover note set_pte_flags_perms[OF set_pte_flags_leaf_val[where mk = new_l3_page
        and pa = "pa + off" and flags = flags]]
  ultimately show ?thesis
    by (intro exI[of _ "slot_addr (mem s') pgtbl 3 (va + off)"])
       (simp add: query_translate_spec val)
qed

theorem map_then_translate_witness:
  "case map_range_in_pgtbl (fresh_state test_pool) test_pgtbl 0x1000 0x5000 0x2000 VMR_WRITE of
     Inl f \<Rightarrow> False
   | Inr s' \<Rightarrow>
       (\<exists>pte. query_in_pgtbl s' test_pgtbl (0x1000 + 0x1000) = Inr (Q_OK (0x5000 + 0x1000) pte, s') \<and>
              get_AP (mem s' pte) = AARCH64_MMU_ATTR_PAGE_AP_HIGH_RW_EL0_RW \<and>
              get_UXN (mem s' pte) = AARCH64_MMU_ATTR_PAGE_UXN)"
proof -
  have "\<not> isl (map_range_in_pgtbl (fresh_state test_pool) test_pgtbl 0x1000 0x5000 0x2000 VMR_WRITE)"
    by code_simp
  then obtain s' where
    m: "map_range_in_pgtbl (fresh_state test_pool) test_pgtbl 0x1000 0x5000 0x2000 VMR_WRITE = Inr s'"
    by (cases "map_range_in_pgtbl (fresh_state test_pool) test_pgtbl 0x1000 0x5000 0x2000 VMR_WRITE")
       auto
  have al: "page_aligned (0x1000 :: u64)" "page_aligned (0x5000 :: u64)"
    "page_aligned (0x2000 :: u64)"
    by (simp_all add: page_aligned_def)
  have fit: "unat (0x5000 :: u64) + unat (0x2000 :: u64) \<le> 2 ^ 48" by simp
  have off: "(0x1000 :: u64) < 0x2000" by simp
  from map_then_translate[OF test_state_facts al fit m off al(1)] show ?thesis
    unfolding m sum.case by (simp add: VMR_WRITE_def VMR_EXEC_def)
qed

text \<open>
  Without the bound on the physical range the round trip fails: the frame number field of a
  descriptor holds 36 bits, so mapping the page at address 0 to the physical address
  \<open>2 ^ 48\<close> stores frame number 0, and the translation of address 0 is 0, not \<open>2 ^ 48\<close>.
\<close>

theorem map_paddr_truncated:
  "case map_range_in_pgtbl (fresh_state test_pool) test_pgtbl 0 (2 ^ 48) 4096 0 of
     Inl f \<Rightarrow> False
   | Inr s' \<Rightarrow>
       (case query_in_pgtbl s' test_pgtbl 0 of
          Inr (Q_OK p e, s'') \<Rightarrow> p = 0 \<and> p \<noteq> 2 ^ 48 + (0 - 0)
        | _ \<Rightarrow> False)"
  by code_simp

lemma clear_ptes_done: "512 \<le> i \<Longrightarrow> clear_ptes s ptp i va pn = (s, va, pn)"
  by (subst clear_ptes.simps) (simp add: PTP_ENTRIES_def)

lemma clear_ptes_step:
  "i < 512 \<Longrightarrow> clear_ptes s ptp i va pn =
     (if pn - 1 = 0 then (write_pte ptp i PTE_DESCRIPTOR_INVALID s, va + PAGE_SIZE, pn - 1)
      else clear_ptes (write_pte ptp i PTE_DESCRIPTOR_INVALID s) ptp (i + 1) (va + PAGE_SIZE) (pn - 1))"
  by (subst clear_ptes.simps) (simp add: PTP_ENTRIES_def)

lemma unmap_store_step:
  assumes inv: "unmap_inv P r S va0 N k s" and k: "k < N"
  shows "store_step (mem s) r (vpath 3 (va0 + of_nat k * PAGE_SIZE))
           (level_index 3 (va0 + of_nat k * PAGE_SIZE)) 0
           (mem (write_pte (tbl (mem s) r (vpath 3 (va0 + of_nat k * PAGE_SIZE)))
              (level_index 3 (va0 + of_nat k * PAGE_SIZE)) PTE_DESCRIPTOR_INVALID s))"
proof -
  from inv k have tinv: "tree_inv P s r"
    and pr: "present (mem s) r (vpath 3 (va0 + of_nat k * PAGE_SIZE))"
    by (simp_all add: unmap_inv_def)
  have ok: "okpath 3 (vpath 3 (va0 + of_nat k * PAGE_SIZE))" by (simp add: okpath_vpath)
  have "store_step (mem s) r (vpath 3 (va0 + of_nat k * PAGE_SIZE))
           (level_index 3 (va0 + of_nat k * PAGE_SIZE)) 0
           ((mem s)(ent_addr (tbl (mem s) r (vpath 3 (va0 + of_nat k * PAGE_SIZE)))
                      (level_index 3 (va0 + of_nat k * PAGE_SIZE)) := 0))"
    by (rule tree_inv_store_step[OF tinv ok pr index_lt]) simp
  then show ?thesis by (simp add: write_pte_def PTE_DESCRIPTOR_INVALID_def)
qed

lemma unmap_store_tbl:
  assumes inv: "unmap_inv P r S va0 N k s" and k: "k < N" and p: "okpath 3 p" "present (mem s) r p"
  shows "tbl (mem (write_pte (tbl (mem s) r (vpath 3 (va0 + of_nat k * PAGE_SIZE)))
              (level_index 3 (va0 + of_nat k * PAGE_SIZE)) PTE_DESCRIPTOR_INVALID s)) r p
         = tbl (mem s) r p"
  by (rule store_forth(2)[OF unmap_store_step[OF inv k] _ p]) simp

lemma unmap_inv_store:
  assumes inv: "unmap_inv P r S va0 N k s" and k: "k < N"
  shows "unmap_inv P r S va0 N (Suc k)
           (write_pte (tbl (mem s) r (vpath 3 (va0 + of_nat k * PAGE_SIZE)))
              (level_index 3 (va0 + of_nat k * PAGE_SIZE)) PTE_DESCRIPTOR_INVALID s)"
proof -
  let ?va = "\<lambda>j. va0 + of_nat j * PAGE_SIZE"
  let ?p0 = "vpath 3 (?va k)" and ?i0 = "level_index 3 (?va k)"
  let ?m = "mem s"
  let ?s1 = "write_pte (tbl ?m r ?p0) ?i0 PTE_DESCRIPTOR_INVALID s"
  from inv have tinv: "tree_inv P s r"
    and prs: "\<And>j. j < N \<Longrightarrow> present ?m r (vpath 3 (?va j))"
    and cl: "\<And>j. j < k \<Longrightarrow> slot 3 (?va j) \<notin> leaves ?m r"
    and lS: "leaves ?m r \<subseteq> S"
    by (simp_all add: unmap_inv_def)
  have ok: "okpath 3 (vpath 3 v)" for v by (simp add: okpath_vpath)
  note st = unmap_store_step[OF inv k]
  have s1: "?s1 = s\<lparr>mem := mem ?s1\<rparr>" by (simp add: write_pte_def)
  have old: "length ?p0 = 3 \<or> \<not> valid_table (?m (ent_addr (tbl ?m r ?p0) ?i0))" by simp
  have "tree_inv P (s\<lparr>mem := mem ?s1\<rparr>) r" by (rule tree_inv_store[OF tinv st])
  then have 1: "tree_inv P ?s1 r" using s1 by simp
  have 2: "present (mem ?s1) r (vpath 3 (?va j))" if "j < N" for j
    by (rule store_forth(1)[OF st old ok prs[OF that]])
  have nl: "\<not> is_leaf (length ?p0) 0" by (simp add: is_leaf_def zero_invalid)
  have sub: "leaves (mem ?s1) r \<subseteq> leaves ?m r - {(?p0, ?i0)}"
    by (rule store_leaves_clear[OF st nl])
  have 3: "slot 3 (?va j) \<notin> leaves (mem ?s1) r" if "j < Suc k" for j
  proof (cases "j = k")
    case True
    with sub show ?thesis by (auto simp: slot_def)
  next
    case False
    with that have "j < k" by simp
    from cl[OF this] sub show ?thesis by auto
  qed
  have 4: "leaves (mem ?s1) r \<subseteq> S" using sub lS by blast
  show ?thesis unfolding unmap_inv_def using 1 2 3 4 by simp
qed

lemma clear_ptes_inv:
  assumes N: "N < 2 ^ 64"
  shows "unmap_inv P r S va0 N k s \<Longrightarrow> k < N \<Longrightarrow> i \<le> 512 \<Longrightarrow>
     (i < 512 \<Longrightarrow> ptp = tbl (mem s) r (vpath 3 (va0 + of_nat k * PAGE_SIZE)) \<and>
                i = level_index 3 (va0 + of_nat k * PAGE_SIZE)) \<Longrightarrow>
     clear_ptes s ptp i (va0 + of_nat k * PAGE_SIZE) (of_nat (N - k)) = (s', va', pn') \<Longrightarrow>
     \<exists>k'. k \<le> k' \<and> (i < 512 \<longrightarrow> k < k') \<and> k' \<le> N \<and> unmap_inv P r S va0 N k' s' \<and>
          va' = va0 + of_nat k' * PAGE_SIZE \<and> pn' = of_nat (N - k') \<and>
          pool s' = pool s \<and> freed s' = freed s"
proof (induction "512 - i" arbitrary: i k s)
  case 0
  then have i: "512 \<le> i" by simp
  with "0.prems"(5) have "s' = s" "va' = va0 + of_nat k * PAGE_SIZE" "pn' = of_nat (N - k)"
    by (simp_all add: clear_ptes_done)
  with "0.prems"(1,2) i show ?case by (intro exI[of _ k]) simp
next
  case (Suc n)
  let ?vak = "va0 + of_nat k * PAGE_SIZE"
  from Suc.hyps(2) have i: "i < 512" by simp
  from Suc.prems(4)[OF i] have ptp: "ptp = tbl (mem s) r (vpath 3 ?vak)"
    and ii: "i = level_index 3 ?vak" by simp_all
  define s1 where "s1 = write_pte ptp i PTE_DESCRIPTOR_INVALID s"
  have inv1: "unmap_inv P r S va0 N (Suc k) s1"
    unfolding s1_def ptp ii by (rule unmap_inv_store[OF Suc.prems(1,2)])
  have ps1: "pool s1 = pool s" "freed s1 = freed s" by (simp_all add: s1_def write_pte_def)
  note step = clear_ptes_step[OF i, of s ptp ?vak "of_nat (N - k)"]
  have dec: "(of_nat (N - k) :: u64) - 1 = of_nat (N - Suc k)"
    by (rule of_nat_diff_Suc[OF Suc.prems(2)])
  have z: "((of_nat (N - Suc k) :: u64) = 0) = (Suc k = N)"
    using of_nat_u64_eq_0[of "N - Suc k"] N Suc.prems(2) by auto
  have eq: "(if (of_nat (N - Suc k) :: u64) = 0
             then (s1, ?vak + PAGE_SIZE, of_nat (N - Suc k))
             else clear_ptes s1 ptp (i + 1) (?vak + PAGE_SIZE) (of_nat (N - Suc k)))
            = (s', va', pn')"
    using Suc.prems(5) unfolding step dec s1_def .
  show ?case
  proof (cases "Suc k = N")
    case True
    with z have "(of_nat (N - Suc k) :: u64) = 0" by simp
    with eq have "(s1, ?vak + PAGE_SIZE, of_nat (N - Suc k) :: u64) = (s', va', pn')" by simp
    then have "s' = s1" "va' = va0 + of_nat (Suc k) * PAGE_SIZE" "pn' = of_nat (N - Suc k)"
      by (auto simp: algebra_simps)
    with inv1 ps1 Suc.prems(2) show ?thesis by (intro exI[of _ "Suc k"]) simp
  next
    case False
    with Suc.prems(2) have k1: "Suc k < N" by simp
    from z False have nz: "(of_nat (N - Suc k) :: u64) \<noteq> 0" by simp
    have rec: "clear_ptes s1 ptp (i + 1) (va0 + of_nat (Suc k) * PAGE_SIZE) (of_nat (N - Suc k))
               = (s', va', pn')"
      unfolding unit_Suc using eq nz by simp
    have n: "n = 512 - (i + 1)" using Suc.hyps(2) by simp
    have i1: "i + 1 \<le> 512" using i by simp
    have cond: "ptp = tbl (mem s1) r (vpath 3 (va0 + of_nat (Suc k) * PAGE_SIZE)) \<and>
                i + 1 = level_index 3 (va0 + of_nat (Suc k) * PAGE_SIZE)" if "i + 1 < 512"
    proof -
      from that ii have q: "level_index 3 ?vak < 511" by simp
      have L: "(1::nat) \<le> 3" "(3::nat) \<le> 3" by simp_all
      have vp: "vpath 3 (va0 + of_nat (Suc k) * PAGE_SIZE) = vpath 3 ?vak"
        unfolding unit_Suc using vpath_step[OF L q, of 3] by (simp add: PAGE_SIZE_shift)
      have ix: "level_index 3 (va0 + of_nat (Suc k) * PAGE_SIZE) = i + 1"
        unfolding unit_Suc using index_step[OF L _ q, of 3] ii by (simp add: PAGE_SIZE_shift)
      from Suc.prems(1,2) have pr: "present (mem s) r (vpath 3 ?vak)" by (simp add: unmap_inv_def)
      have "tbl (mem s1) r (vpath 3 ?vak) = tbl (mem s) r (vpath 3 ?vak)"
        unfolding s1_def ptp ii
        by (rule unmap_store_tbl[OF Suc.prems(1,2) _ pr]) (simp add: okpath_vpath)
      with vp ix ptp show ?thesis by simp
    qed
    from Suc.hyps(1)[OF n inv1 k1 i1 cond rec] obtain k' where
      "Suc k \<le> k'" "k' \<le> N" "unmap_inv P r S va0 N k' s'"
      "va' = va0 + of_nat k' * PAGE_SIZE" "pn' = of_nat (N - k')"
      "pool s' = pool s1" "freed s' = freed s1" by blast
    with ps1 show ?thesis by (intro exI[of _ k']) simp
  qed
qed

lemma unmap_loop_step_present:
  assumes inv: "tree_inv P s r" and pr: "present (mem s) r (vpath 3 v)" and pn: "pn \<noteq> 0"
  shows "unmap_loop huge (Suc fuel) s r v pn =
           (case clear_ptes s (tbl (mem s) r (vpath 3 v)) (level_index 3 v) v pn of
              (s3, va3, pn3) \<Rightarrow> unmap_loop huge fuel s3 r va3 pn3)"
proof -
  let ?m = "mem s"
  have p1: "present ?m r (vpath 1 v)" and p2: "present ?m r (vpath 2 v)"
    using pr by (simp_all add: vpath_numeral level_index_def)
  have n0: "r \<noteq> NULL" using inv by (simp add: tree_inv_def)
  have n1: "tbl ?m r (vpath 1 v) \<noteq> NULL"
    by (rule tree_inv_nonnull[OF inv okpath_vpath p1]) simp
  have n2: "tbl ?m r (vpath 2 v) \<noteq> NULL"
    by (rule tree_inv_nonnull[OF inv okpath_vpath p2]) simp
  have n3: "tbl ?m r (vpath 3 v) \<noteq> NULL"
    by (rule tree_inv_nonnull[OF inv okpath_vpath pr]) simp
  from pr n0 n1 n2 n3 pn show ?thesis
    by (simp add: get_next_ptp_noalloc vpath_numeral valid_table_def level_index_def)
qed

lemma unmap_loop_inv:
  assumes N: "N < 2 ^ 64"
  shows "unmap_inv P r S va0 N k s \<Longrightarrow> k \<le> N \<Longrightarrow> N - k < fuel \<Longrightarrow>
     \<exists>s'. unmap_loop huge fuel s r (va0 + of_nat k * PAGE_SIZE) (of_nat (N - k)) = Some (Inr s') \<and>
          unmap_inv P r S va0 N N s' \<and> pool s' = pool s \<and> freed s' = freed s"
proof (induction fuel arbitrary: k s)
  case 0
  then show ?case by simp
next
  case (Suc fuel)
  let ?vak = "va0 + of_nat k * PAGE_SIZE"
  show ?case
  proof (cases "k = N")
    case True
    with Suc.prems(1) show ?thesis by simp
  next
    case False
    with Suc.prems(2) have kN: "k < N" by simp
    then have nz: "(of_nat (N - k) :: u64) \<noteq> 0"
      using of_nat_u64_eq_0[of "N - k"] N by simp
    from Suc.prems(1) kN have tinv: "tree_inv P s r" and pr: "present (mem s) r (vpath 3 ?vak)"
      by (simp_all add: unmap_inv_def)
    obtain s1 va1 pn1 where
      cl: "clear_ptes s (tbl (mem s) r (vpath 3 ?vak)) (level_index 3 ?vak) ?vak (of_nat (N - k))
           = (s1, va1, pn1)"
      by (metis prod_cases3)
    have il: "level_index 3 ?vak \<le> 512" using index_lt[of 3 ?vak] by simp
    from clear_ptes_inv[OF N Suc.prems(1) kN il _ cl] index_lt[of 3 ?vak]
    obtain k' where k': "k < k'" "k' \<le> N" and inv1: "unmap_inv P r S va0 N k' s1"
      and r1: "va1 = va0 + of_nat k' * PAGE_SIZE" "pn1 = of_nat (N - k')"
      and ps: "pool s1 = pool s" "freed s1 = freed s"
      by blast
    have f: "N - k' < fuel" using Suc.prems(3) k' by simp
    from Suc.IH[OF inv1 k'(2) f] obtain s' where
      "unmap_loop huge fuel s1 r (va0 + of_nat k' * PAGE_SIZE) (of_nat (N - k')) = Some (Inr s')"
      "unmap_inv P r S va0 N N s'" "pool s' = pool s1" "freed s' = freed s1" by blast
    moreover have "unmap_loop huge (Suc fuel) s r ?vak (of_nat (N - k))
                   = unmap_loop huge fuel s1 r va1 pn1"
      by (simp only: unmap_loop_step_present[OF tinv pr nz] cl prod.case)
    ultimately show ?thesis using ps r1
      by (intro exI[of _ s']) (simp del: unmap_loop.simps)
  qed
qed

lemma translate_present_invalid:
  assumes inv: "tree_inv P s r" and pr: "present (mem s) r (vpath 3 v)"
    and e: "slot 3 v \<notin> leaves (mem s) r"
  shows "translate_spec (mem s) r v = Q_ENOMAPPING"
proof -
  let ?m = "mem s"
  have p1: "present ?m r (vpath 1 v)" and p2: "present ?m r (vpath 2 v)"
    using pr by (simp_all add: vpath_numeral level_index_def)
  have n0: "r \<noteq> NULL" using inv by (simp add: tree_inv_def)
  have n1: "tbl ?m r (vpath 1 v) \<noteq> NULL"
    by (rule tree_inv_nonnull[OF inv okpath_vpath p1]) simp
  have n2: "tbl ?m r (vpath 2 v) \<noteq> NULL"
    by (rule tree_inv_nonnull[OF inv okpath_vpath p2]) simp
  have n3: "tbl ?m r (vpath 3 v) \<noteq> NULL"
    by (rule tree_inv_nonnull[OF inv okpath_vpath pr]) simp
  from e pr have "IS_PTE_INVALID (?m (ent_addr (tbl ?m r (vpath 3 v)) (level_index 3 v)))"
    by (simp add: slot_def leaves_def is_leaf_def okpath_vpath index_lt)
  with pr n0 n1 n2 n3 show ?thesis
    by (simp add: translate_spec_def Let_def vpath_numeral valid_table_def level_index_def)
qed

lemma level_index_low_bits:
  assumes x: "page_aligned x" and r: "unat r < 4096" and l: "l \<le> 3"
  shows "level_index l (x + r) = level_index l x"
proof -
  from unat_aligned[OF x] obtain k where k: "unat x = 4096 * k" "k < 2 ^ 52" by blast
  have "unat x + unat r < 2 ^ 64" using k r by simp
  then have u: "unat (x + r) = unat x + unat r" using unat_add_lem[of x r] by simp
  have sh: "level_shift l = 12 + (level_shift l - 12)" using l by (simp add: level_shift_def)
  have d: "n div 2 ^ level_shift l = (n div 4096) div 2 ^ (level_shift l - 12)" for n :: nat
  proof -
    have "(2::nat) ^ level_shift l = 4096 * 2 ^ (level_shift l - 12)"
      by (subst sh) (simp only: power_add, simp)
    then show ?thesis by (simp add: div_mult2_eq)
  qed
  have "(unat x + unat r) div 4096 = unat x div 4096" using k r by simp
  then show ?thesis using l by (simp add: level_index_nat u d)
qed

lemma slot_low_bits:
  assumes "page_aligned x" "unat r < 4096"
  shows "slot 3 (x + r) = slot 3 x"
proof -
  have "level_index l (x + r) = level_index l x" if "l \<le> 3" for l
    by (rule level_index_low_bits[OF assms that])
  from this[of 0] this[of 1] this[of 2] this[of 3] show ?thesis
    by (simp add: slot_def vpath_numeral level_index_def)
qed

lemma off_split:
  "(off :: u64) = of_nat (unat off div 4096) * PAGE_SIZE + of_nat (unat off mod 4096)"
proof -
  define d m where "d = unat off div 4096" and "m = unat off mod 4096"
  have "unat off = d * 4096 + m" by (simp add: d_def m_def)
  then have "(of_nat (unat off) :: u64) = of_nat (d * 4096 + m)" by (rule arg_cong)
  then have "off = of_nat d * 4096 + of_nat m" by simp
  then show ?thesis by (simp only: d_def m_def PAGE_SIZE_def)
qed

lemma page_tree_fresh:
  assumes "page_aligned r" "r \<noteq> NULL" "\<forall>i<512. mem s (ent_addr r i) = 0"
    and "distinct (pool s)" "\<forall>p\<in>set (pool s). good_page p" "r \<notin> set (pool s)"
  shows "page_tree (pool s) s r"
proof -
  have z: "\<forall>i<512. IS_PTE_INVALID (mem s (ent_addr r i))"
    using assms(3) by (simp add: zero_invalid)
  show ?thesis
    using fresh_root_inv(1,2)[OF assms(1,2) z assms(4,5,6)] by (simp add: page_tree_def)
qed

section \<open>Mapping a range, then unmapping it\<close>

text \<open>
  C2. In a tree of pages (a well-formed tree whose leaves are all level-3 entries, as
  \<open>map_range_in_pgtbl\<close> builds from a zeroed root), for page-aligned \<open>va\<close> and \<open>len\<close> and
  every \<open>pa\<close> and \<open>flags\<close>: if \<open>map_range_in_pgtbl\<close> returns, then
  \<open>unmap_range_in_pgtbl\<close> over the same range returns without a fault, and afterwards
  \<open>query_in_pgtbl\<close> answers \<open>-ENOMAPPING\<close> for every address \<open>va + off\<close> with
  \<open>off < len\<close>.
\<close>

theorem map_unmap_cancels:
  assumes tree: "page_tree P s pgtbl"
    and al: "page_aligned va" "page_aligned len"
    and m: "map_range_in_pgtbl s pgtbl va pa len flags = Inr s1"
  shows "\<exists>fuel s2. unmap_range_in_pgtbl fuel s1 pgtbl va len = Some (Inr s2) \<and>
           (\<forall>off. off < len \<longrightarrow> query_in_pgtbl s2 pgtbl (va + off) = Inr (Q_ENOMAPPING, s2))"
proof -
  define N where "N = unat len div 4096"
  let ?lv = "leaf_val new_l3_page flags"
  let ?B = "leaves (mem s) pgtbl"
  have N64: "N < 2 ^ 64" using unsigned_less[of len, where 'a = nat] by (simp add: N_def)
  have pn: "pages_of_len len = of_nat (N - 0)"
    using pages_of_len_aligned[OF al(2)] by (simp add: N_def)
  from tree have tinv: "tree_inv P s pgtbl" and B3: "\<And>x. x \<in> ?B \<Longrightarrow> length (fst x) = 3"
    by (simp_all add: page_tree_def)
  have inv0: "map_inv P pgtbl 3 va pa PAGE_SIZE ?lv ?B False 0 s"
    using tinv by (simp add: map_inv_def okpath_def)
  from m obtain va' pa' where
    loop: "map_loop 3 new_l3_page PAGE_SIZE flags s pgtbl (va + of_nat 0 * PAGE_SIZE)
             (pa + of_nat 0 * PAGE_SIZE) (of_nat (N - 0)) = Inr (s1, va', pa')"
    by (auto simp: map_range_in_pgtbl_def pn split: sum.splits)
  have "map_inv P pgtbl 3 va pa PAGE_SIZE ?lv ?B False N s1 \<and>
        va' = va + of_nat N * PAGE_SIZE \<and> pa' = pa + of_nat N * PAGE_SIZE \<and> freed s1 = freed s"
  proof (rule map_loop_inv[where L = 3 and mk = new_l3_page and flags = flags and lv = ?lv
        and D = False and B = ?B and k = 0 and N = N and s = s])
    show "(1::nat) \<le> 3" "(3::nat) \<le> 3" by simp_all
    show "PAGE_SIZE = 2 ^ level_shift 3" by (rule PAGE_SIZE_shift)
    show "\<And>pa. set_pte_flags (new_l3_page pa) flags USER_PTE = Inr (?lv pa)"
      by (rule set_pte_flags_leaf_val)
    show "\<And>pa. \<not> IS_PTE_INVALID (?lv pa)" by (rule leaf_val_valid(1))
    show "\<And>pa. (3::nat) < 3 \<Longrightarrow> \<not> IS_PTE_TABLE (?lv pa)" by simp
    show "N < 2 ^ 64" by (rule N64)
    show "False \<Longrightarrow> inj_on (\<lambda>j. slot 3 (va + of_nat j * PAGE_SIZE)) {..<N}" by simp
    show "\<And>j l. l < 3 \<Longrightarrow> slot l (va + of_nat j * PAGE_SIZE) \<notin> ?B"
      using B3 by (fastforce simp: slot_def)
    show "map_inv P pgtbl 3 va pa PAGE_SIZE ?lv ?B False 0 s" by (rule inv0)
    show "0 \<le> N" by simp
    show "map_loop 3 new_l3_page PAGE_SIZE flags s pgtbl (va + of_nat 0 * PAGE_SIZE)
            (pa + of_nat 0 * PAGE_SIZE) (of_nat (N - 0)) = Inr (s1, va', pa')" by (rule loop)
  qed
  then have u0: "unmap_inv P pgtbl (leaves (mem s1) pgtbl) va N 0 s1"
    by (simp add: map_inv_def unmap_inv_def)
  from unmap_loop_inv[OF N64 u0, of "Suc N" False] obtain s2 where
    un: "unmap_loop False (Suc N) s1 pgtbl (va + of_nat 0 * PAGE_SIZE) (of_nat (N - 0)) = Some (Inr s2)"
    and uN: "unmap_inv P pgtbl (leaves (mem s1) pgtbl) va N N s2" by auto
  have 1: "unmap_range_in_pgtbl (Suc N) s1 pgtbl va len = Some (Inr s2)"
    using un by (simp add: unmap_range_in_pgtbl_def pn del: unmap_loop.simps)
  have 2: "query_in_pgtbl s2 pgtbl (va + off) = Inr (Q_ENOMAPPING, s2)" if off: "off < len" for off
  proof -
    define j where "j = unat off div 4096"
    from off have "unat off < unat len" by (simp add: word_less_nat_alt)
    then have jN: "j < N" using aligned_of_nat(2)[OF al(2)] by (simp add: j_def N_def)
    have vj: "va + off = (va + of_nat j * PAGE_SIZE) + of_nat (unat off mod 4096)"
      using off_split[of off] by (simp add: j_def add.assoc)
    have r: "unat (of_nat (unat off mod 4096) :: u64) < 4096"
      by (simp add: unat_of_nat)
    have "page_aligned (of_nat j * PAGE_SIZE :: u64)"
      unfolding page_aligned_dvd by (simp add: PAGE_SIZE_def)
    then have alj: "page_aligned (va + of_nat j * PAGE_SIZE)" by (rule page_aligned_add[OF al(1)])
    have sl: "slot 3 (va + off) = slot 3 (va + of_nat j * PAGE_SIZE)"
      unfolding vj by (rule slot_low_bits[OF alj r])
    from uN jN have tinv2: "tree_inv P s2 pgtbl"
      and pr: "present (mem s2) pgtbl (vpath 3 (va + of_nat j * PAGE_SIZE))"
      and nl: "slot 3 (va + of_nat j * PAGE_SIZE) \<notin> leaves (mem s2) pgtbl"
      by (simp_all add: unmap_inv_def)
    from sl pr have pr': "present (mem s2) pgtbl (vpath 3 (va + off))" by (simp add: slot_def)
    from sl nl have nl': "slot 3 (va + off) \<notin> leaves (mem s2) pgtbl" by simp
    show ?thesis
      by (simp add: query_translate_spec translate_present_invalid[OF tinv2 pr' nl'])
  qed
  from 1 2 show ?thesis by blast
qed

theorem map_unmap_cancels_witness:
  "case map_range_in_pgtbl (fresh_state test_pool) test_pgtbl 0x1000 0x5000 0x2000 VMR_WRITE of
     Inl f \<Rightarrow> False
   | Inr s1 \<Rightarrow>
       (\<exists>fuel s2. unmap_range_in_pgtbl fuel s1 test_pgtbl 0x1000 0x2000 = Some (Inr s2) \<and>
          query_in_pgtbl s2 test_pgtbl (0x1000 + 0x1abc) = Inr (Q_ENOMAPPING, s2))"
proof -
  have "\<not> isl (map_range_in_pgtbl (fresh_state test_pool) test_pgtbl 0x1000 0x5000 0x2000 VMR_WRITE)"
    by code_simp
  then obtain s1 where
    m: "map_range_in_pgtbl (fresh_state test_pool) test_pgtbl 0x1000 0x5000 0x2000 VMR_WRITE = Inr s1"
    by (cases "map_range_in_pgtbl (fresh_state test_pool) test_pgtbl 0x1000 0x5000 0x2000 VMR_WRITE")
       auto
  have al: "page_aligned (0x1000 :: u64)" "page_aligned (0x2000 :: u64)"
    by (simp_all add: page_aligned_def)
  have off: "(0x1abc :: u64) < 0x2000" by simp
  from map_unmap_cancels[OF page_tree_fresh[OF test_state_facts] al m] off show ?thesis
    unfolding m sum.case by blast
qed

section \<open>Freeing the tree: order and extent\<close>

lemma fold_freed:
  assumes "\<And>k s. f k s = s\<lparr>freed := freed s @ g (mem s) k\<rparr>"
  shows "fold f xs s = s\<lparr>freed := freed s @ concat (map (g (mem s)) xs)\<rparr>"
  by (induction xs arbitrary: s) (simp_all add: assms)

lemma free_l2_loop_order:
  "free_l2_loop ptp s = s\<lparr>freed := freed s @ butlast (free_order (mem s) (Suc 0) ptp)\<rparr>"
  unfolding free_l2_loop_def
  by (subst fold_freed[where g = "\<lambda>m k. if valid_table (m (ent_addr ptp k))
        then free_order m 0 (GET_NEXT_PTP (m (ent_addr ptp k))) else []"])
     (simp_all add: read_pte_def free_pages_def valid_table_def Let_def)

lemma free_l1_loop_order:
  "free_l1_loop ptp s = s\<lparr>freed := freed s @ butlast (free_order (mem s) (Suc (Suc 0)) ptp)\<rparr>"
  unfolding free_l1_loop_def
  by (subst fold_freed[where g = "\<lambda>m k. if valid_table (m (ent_addr ptp k))
        then free_order m (Suc 0) (GET_NEXT_PTP (m (ent_addr ptp k))) else []"])
     (simp_all add: read_pte_def free_pages_def valid_table_def Let_def free_l2_loop_order)

lemma free_l0_loop_order:
  "free_l0_loop ptp s = s\<lparr>freed := freed s @ butlast (free_order (mem s) (Suc (Suc (Suc 0))) ptp)\<rparr>"
  unfolding free_l0_loop_def
  by (subst fold_freed[where g = "\<lambda>m k. if valid_table (m (ent_addr ptp k))
        then free_order m (Suc (Suc 0)) (GET_NEXT_PTP (m (ent_addr ptp k))) else []"])
     (simp_all add: read_pte_def free_pages_def valid_table_def Let_def free_l1_loop_order)

lemma free_page_table_order:
  "pgtbl \<noteq> NULL \<Longrightarrow>
   free_page_table pgtbl s = s\<lparr>freed := freed s @ free_order (mem s) 3 pgtbl\<rparr>"
  by (simp add: free_page_table_def free_l0_loop_order free_pages_def numeral_3_eq_3)

lemma tbl_snoc: "tbl m r (p @ [i]) = tbl m (GET_NEXT_PTP (m (ent_addr r i))) p"
  by (induction p) simp_all

lemma present_snoc:
  "present m r (p @ [i]) =
     (valid_table (m (ent_addr r i)) \<and> present m (GET_NEXT_PTP (m (ent_addr r i))) p)"
  by (induction p) (auto simp: tbl_snoc)

lemma okpath_snoc: "okpath (Suc d) (p @ [i]) = (i < 512 \<and> okpath d p)"
  by (auto simp: okpath_def)

lemma set_free_order:
  "set (free_order m d r) = {tbl m r p | p. okpath d p \<and> present m r p}"
proof (induction d arbitrary: r)
  case 0
  show ?case by (auto simp: okpath_def)
next
  case (Suc d)
  show ?case
  proof (intro set_eqI iffI)
    fix x assume "x \<in> set (free_order m (Suc d) r)"
    then consider "x = r"
      | i where "i < 512" "valid_table (m (ent_addr r i))"
          "x \<in> set (free_order m d (GET_NEXT_PTP (m (ent_addr r i))))"
      by (auto simp: PTP_ENTRIES_def split: if_splits)
    then show "x \<in> {tbl m r p | p. okpath (Suc d) p \<and> present m r p}"
    proof cases
      case 1
      then have "x = tbl m r []" "okpath (Suc d) []" "present m r []" by simp_all
      then show ?thesis by blast
    next
      case 2
      from 2(3) obtain q where q: "x = tbl m (GET_NEXT_PTP (m (ent_addr r i))) q"
        "okpath d q" "present m (GET_NEXT_PTP (m (ent_addr r i))) q"
        unfolding Suc.IH by blast
      with 2(1,2) have "x = tbl m r (q @ [i])" "okpath (Suc d) (q @ [i])" "present m r (q @ [i])"
        by (simp_all add: tbl_snoc present_snoc okpath_snoc)
      then show ?thesis by blast
    qed
  next
    fix x assume "x \<in> {tbl m r p | p. okpath (Suc d) p \<and> present m r p}"
    then obtain p where p: "x = tbl m r p" "okpath (Suc d) p" "present m r p" by blast
    show "x \<in> set (free_order m (Suc d) r)"
    proof (cases p rule: rev_cases)
      case Nil
      with p show ?thesis by simp
    next
      case (snoc q i)
      with p have i: "i < 512" "valid_table (m (ent_addr r i))"
        and q: "okpath d q" "present m (GET_NEXT_PTP (m (ent_addr r i))) q"
          "x = tbl m (GET_NEXT_PTP (m (ent_addr r i))) q"
        by (simp_all add: tbl_snoc present_snoc okpath_snoc)
      from q have "x \<in> set (free_order m d (GET_NEXT_PTP (m (ent_addr r i))))"
        unfolding Suc.IH by blast
      with i show ?thesis by (auto simp: PTP_ENTRIES_def)
    qed
  qed
qed

text \<open>
  C9. \<open>free_page_table\<close> on a non-null root changes nothing but the log of freed pages,
  to which it appends the post-order of the specification, three levels of entries deep: the
  level-3 tables behind the valid table entries of a level-2 table come before that table,
  the level-2 tables before their level-1 table, the level-1 tables before the root, and the
  root is last. The pages freed are exactly the table pages reached from the root through
  valid table entries at levels 0, 1 and 2; nothing is read from an invalid entry or from a
  leaf, so no address held in a leaf is passed to \<open>free_pages\<close>.
\<close>

theorem free_page_table_post_order:
  "free_page_table pgtbl s =
     (if pgtbl = NULL then s else s\<lparr>freed := freed s @ free_order (mem s) 3 pgtbl\<rparr>) \<and>
   set (free_order (mem s) 3 pgtbl) =
     {tbl (mem s) pgtbl p | p. okpath 3 p \<and> present (mem s) pgtbl p} \<and>
   (\<forall>d ptp. \<exists>below. free_order (mem s) (Suc d) ptp = below @ [ptp])"
proof (intro conjI)
  show "free_page_table pgtbl s =
     (if pgtbl = NULL then s else s\<lparr>freed := freed s @ free_order (mem s) 3 pgtbl\<rparr>)"
  proof (cases "pgtbl = NULL")
    case True
    then show ?thesis by (simp add: free_page_table_def)
  next
    case False
    then show ?thesis by (simp add: free_page_table_order)
  qed
  show "set (free_order (mem s) 3 pgtbl) =
     {tbl (mem s) pgtbl p | p. okpath 3 p \<and> present (mem s) pgtbl p}"
    by (rule set_free_order)
  show "\<forall>d ptp. \<exists>below. free_order (mem s) (Suc d) ptp = below @ [ptp]"
    by simp
qed

theorem free_page_table_post_order_witness:
  "case map_range_in_pgtbl (fresh_state test_pool) test_pgtbl 0 0 4096 0 of
     Inl f \<Rightarrow> False
   | Inr s1 \<Rightarrow>
       KBASE + 0x202000 \<in> set (freed (free_page_table test_pgtbl s1)) \<and>
       last (freed (free_page_table test_pgtbl s1)) = test_pgtbl"
proof -
  have "case map_range_in_pgtbl (fresh_state test_pool) test_pgtbl 0 0 4096 0 of
     Inl f \<Rightarrow> False
   | Inr s1 \<Rightarrow> test_pgtbl \<noteq> NULL \<and> present (mem s1) test_pgtbl [0, 0, 0] \<and>
       tbl (mem s1) test_pgtbl [0, 0, 0] = KBASE + 0x202000"
    by code_simp
  then obtain s1 where
    m: "map_range_in_pgtbl (fresh_state test_pool) test_pgtbl 0 0 4096 0 = Inr s1"
    and r: "test_pgtbl \<noteq> NULL" and pr: "present (mem s1) test_pgtbl [0, 0, 0]"
    and t: "tbl (mem s1) test_pgtbl [0, 0, 0] = KBASE + 0x202000"
    by (auto split: sum.splits)
  have ok: "okpath 3 [0, 0, 0]" by (simp add: okpath_def)
  note th = free_page_table_post_order[of test_pgtbl s1]
  from th[THEN conjunct1] r have 1: "freed (free_page_table test_pgtbl s1)
      = freed s1 @ free_order (mem s1) 3 test_pgtbl" by simp
  have "tbl (mem s1) test_pgtbl [0, 0, 0]
      \<in> {tbl (mem s1) test_pgtbl p | p. okpath 3 p \<and> present (mem s1) test_pgtbl p}"
    using ok pr by blast
  then have 2: "KBASE + 0x202000 \<in> set (free_order (mem s1) 3 test_pgtbl)"
    unfolding th[THEN conjunct2, THEN conjunct1] t .
  from th[THEN conjunct2, THEN conjunct2]
  obtain below where 3: "free_order (mem s1) 3 test_pgtbl = below @ [test_pgtbl]"
    unfolding numeral_3_eq_3 by blast
  from 2 have "KBASE + 0x202000 \<in> set (freed (free_page_table test_pgtbl s1))"
    unfolding 1 by simp
  moreover have "last (freed (free_page_table test_pgtbl s1)) = test_pgtbl"
    unfolding 1 3 by simp
  ultimately show ?thesis unfolding m sum.case by simp
qed


section \<open>Query against the translation of the specification\<close>










text \<open>The block descriptors installed by \<^verbatim>\<open>map_range_in_pgtbl_huge\<close> satisfy the condition.\<close>

lemma mapped_blocks_reserved_clear:
  "set_pte_flags (new_l1_block pa) flags USER_PTE = Inr e \<Longrightarrow> block_reserved_clear 1 e"
  "set_pte_flags (new_l2_block pa) flags USER_PTE = Inr e \<Longrightarrow> block_reserved_clear 2 e"
proof -
  have z: "bf_get lo w 0 = 0" for lo w by (simp add: bf_get_def)
  show "set_pte_flags (new_l1_block pa) flags USER_PTE = Inr e \<Longrightarrow> block_reserved_clear 1 e"
    by (auto simp: set_pte_flags_def Let_def field_defs bf_get_set_other new_l1_block_def
        block_reserved_clear_def z PAGE_SHIFT_def PAGE_ORDER_def split: if_splits)
  show "set_pte_flags (new_l2_block pa) flags USER_PTE = Inr e \<Longrightarrow> block_reserved_clear 2 e"
    by (auto simp: set_pte_flags_def Let_def field_defs bf_get_set_other new_l2_block_def
        block_reserved_clear_def z PAGE_SHIFT_def PAGE_ORDER_def split: if_splits)
qed




end
